theory Spec2Isabelle
  imports Complex_Main "HOL-Library.Product_Lexorder"
begin

section \<open>Characters and strings\<close>

text \<open>
  A Python \<open>str\<close> is a sequence of code points. The model uses \<^typ>\<open>string\<close>, a list of
  \<^typ>\<open>char\<close>, and reads each \<^typ>\<open>char\<close> as one code point in the range U+0000..U+00FF,
  so \<^const>\<open>length\<close> is Python's \<open>len\<close> on such text. The character classes below are the
  ones Python 3 uses for \<open>str\<close> patterns and \<open>str\<close> methods, restricted to that range.
\<close>

definition code :: "char \<Rightarrow> nat" where
  "code c = of_char c"

text \<open>The newline character \<open>'\n'\<close>.\<close>

definition newline :: char where
  "newline = CHR 0x0A"

text \<open>\<open>\s\<close> in a \<open>str\<close> pattern, \<open>str.isspace\<close> and the characters \<open>str.strip()\<close> removes.\<close>

definition is_space :: "char \<Rightarrow> bool" where
  "is_space c = ((9 \<le> code c \<and> code c \<le> 13) \<or> (28 \<le> code c \<and> code c \<le> 32)
     \<or> code c = 133 \<or> code c = 160)"

text \<open>\<open>\d\<close> in a \<open>str\<close> pattern: the decimal digits.\<close>

definition is_digit :: "char \<Rightarrow> bool" where
  "is_digit c = (48 \<le> code c \<and> code c \<le> 57)"

text \<open>\<open>str.isalnum\<close>: letters and numeric characters.\<close>

definition is_alnum :: "char \<Rightarrow> bool" where
  "is_alnum c = ((48 \<le> code c \<and> code c \<le> 57) \<or> (65 \<le> code c \<and> code c \<le> 90)
     \<or> (97 \<le> code c \<and> code c \<le> 122)
     \<or> code c = 170 \<or> code c = 178 \<or> code c = 179 \<or> code c = 181
     \<or> code c = 185 \<or> code c = 186 \<or> (188 \<le> code c \<and> code c \<le> 190)
     \<or> (192 \<le> code c \<and> code c \<le> 214) \<or> (216 \<le> code c \<and> code c \<le> 246)
     \<or> (248 \<le> code c \<and> code c \<le> 255))"

text \<open>\<open>\w\<close> in a \<open>str\<close> pattern: the alphanumeric characters and the underscore.\<close>

definition is_word :: "char \<Rightarrow> bool" where
  "is_word c = (is_alnum c \<or> c = CHR ''_'')"

text \<open>\<open>str.lower\<close> on one character.\<close>

definition lower_char :: "char \<Rightarrow> char" where
  "lower_char c = (if (65 \<le> code c \<and> code c \<le> 90)
       \<or> (192 \<le> code c \<and> code c \<le> 222 \<and> code c \<noteq> 215)
     then char_of (code c + 32) else c)"

definition lower :: "string \<Rightarrow> string" where
  "lower s = map lower_char s"

text \<open>\<open>str.strip()\<close>: whitespace removed at both ends.\<close>

definition strip :: "string \<Rightarrow> string" where
  "strip s = rev (dropWhile is_space (rev (dropWhile is_space s)))"

section \<open>Text normalizer\<close>

text \<open>\<open>re.sub(r'[^\w\s]', ' ', title)\<close>\<close>

definition sub_special :: "string \<Rightarrow> string" where
  "sub_special s = map (\<lambda>c. if is_word c \<or> is_space c then c else CHR '' '') s"

text \<open>\<open>re.sub(r'\s+', ' ', title)\<close>: every maximal run of whitespace becomes one space.\<close>

function sub_spaces :: "string \<Rightarrow> string" where
  "sub_spaces [] = []"
| "sub_spaces (c # cs) =
     (if is_space c then CHR '' '' # sub_spaces (dropWhile is_space cs)
      else c # sub_spaces cs)"
  by pat_completeness auto
termination
  by (relation "measure length") (auto simp: le_imp_less_Suc length_dropWhile_le)

text \<open>\<open>normalize_title\<close>; \<open>None\<close> is Python's \<open>None\<close>, and \<open>not title\<close> holds for \<open>None\<close>
  and for the empty string.\<close>

definition normalize_title :: "string option \<Rightarrow> string" where
  "normalize_title title =
     (case title of
        None \<Rightarrow> []
      | Some t \<Rightarrow> if t = [] then [] else strip (sub_spaces (sub_special (lower t))))"

section \<open>Title extractor\<close>

text \<open>
  What the PDF reader gives for a file: opening or parsing it raises (\<open>Unreadable\<close>), or it
  has a list of pages, each of which gives its text or raises when the text is extracted.
\<close>

datatype page = PageText string | PageError

datatype pdf = Unreadable | Pages "page list"

text \<open>Lines 18 to 29: the text of the first page, or of the second when the first has none.
  \<open>None\<close> is the function returning \<open>None\<close>, also through the \<open>except\<close> clause.\<close>

definition select_page_text :: "page list \<Rightarrow> string option" where
  "select_page_text pages =
     (case pages of
        [] \<Rightarrow> None
      | p0 # rest \<Rightarrow>
          (case p0 of
             PageError \<Rightarrow> None
           | PageText t0 \<Rightarrow>
               if t0 = [] \<and> length pages > 1 then
                 (case rest ! 0 of
                    PageError \<Rightarrow> None
                  | PageText t1 \<Rightarrow> if t1 = [] then None else Some t1)
               else if t0 = [] then None else Some t0))"

text \<open>\<open>text.split('\n')\<close>\<close>

fun split_nl :: "string \<Rightarrow> string list" where
  "split_nl [] = [[]]"
| "split_nl (c # cs) =
     (if c = newline then [] # split_nl cs
      else (case split_nl cs of [] \<Rightarrow> [[c]] | l # ls \<Rightarrow> (c # l) # ls))"

text \<open>\<open>[line.strip() for line in lines if line.strip()]\<close>\<close>

definition stripped_lines :: "string \<Rightarrow> string list" where
  "stripped_lines text = map strip (filter (\<lambda>line. strip line \<noteq> []) (split_nl text))"

text \<open>A literal prefix matched at the start of the line under \<open>re.IGNORECASE\<close>.\<close>

definition istarts :: "string \<Rightarrow> string \<Rightarrow> bool" where
  "istarts p line = (length p \<le> length line \<and> lower (take (length p) line) = lower p)"

text \<open>\<open>$\<close> without \<open>re.MULTILINE\<close>: the end of the string, or just before a final newline.\<close>

definition at_end :: "string \<Rightarrow> bool" where
  "at_end rest = (rest = [] \<or> rest = [newline])"

text \<open>\<open>re.search(r'^\d+$|^Vol\.|^Abstract|^Pages|^\d{4}$|^Journal of', line, re.IGNORECASE)\<close>\<close>

definition skip_search :: "string \<Rightarrow> bool" where
  "skip_search line =
     ((takeWhile is_digit line \<noteq> [] \<and> at_end (dropWhile is_digit line))
      \<or> istarts ''Vol.'' line
      \<or> istarts ''Abstract'' line
      \<or> istarts ''Pages'' line
      \<or> (4 \<le> length line \<and> list_all is_digit (take 4 line) \<and> at_end (drop 4 line))
      \<or> istarts ''Journal of'' line)"

text \<open>\<open>re.match(r'^(Received|Submitted|Accepted|Published|Copyright|DOI)', line, re.IGNORECASE)\<close>\<close>

definition skip_match :: "string \<Rightarrow> bool" where
  "skip_match line =
     (istarts ''Received'' line \<or> istarts ''Submitted'' line \<or> istarts ''Accepted'' line
      \<or> istarts ''Published'' line \<or> istarts ''Copyright'' line \<or> istarts ''DOI'' line)"

text \<open>The loop of lines 39 to 56 over \<open>enumerate(lines[:10])\<close>: \<open>i\<close> is the index of the line
  at the head of the list, the last argument is \<open>potential_title_lines\<close>. Each \<open>continue\<close>
  goes to the next line; the \<open>break\<close> returns the list.\<close>

fun title_loop :: "nat \<Rightarrow> string list \<Rightarrow> string list \<Rightarrow> string list" where
  "title_loop i [] potential_title_lines = potential_title_lines"
| "title_loop i (line # rest) potential_title_lines =
     (if skip_search line then title_loop (i + 1) rest potential_title_lines
      else if length line < 10 then title_loop (i + 1) rest potential_title_lines
      else if skip_match line then title_loop (i + 1) rest potential_title_lines
      else
        (let potential_title_lines = potential_title_lines @ [line] in
         if i \<ge> 2 \<and> length potential_title_lines > 0 then potential_title_lines
         else title_loop (i + 1) rest potential_title_lines))"

text \<open>\<open>' '.join(xs)\<close>\<close>

fun join_space :: "string list \<Rightarrow> string" where
  "join_space [] = []"
| "join_space [x] = x"
| "join_space (x # y # ys) = x @ CHR '' '' # join_space (y # ys)"

text \<open>Lines 33 to 65, from the page text on.\<close>

definition title_of_text :: "string \<Rightarrow> string option" where
  "title_of_text first_page_text =
     (let lines = stripped_lines first_page_text;
          potential_title_lines = title_loop 0 (take 10 lines) [];
          potential_title = join_space (take 3 potential_title_lines)
      in if potential_title = [] \<and> length first_page_text > 100
         then Some (take 100 first_page_text)
         else Some potential_title)"

definition extract_title_from_pdf :: "pdf \<Rightarrow> string option" where
  "extract_title_from_pdf pdf_path =
     (case pdf_path of
        Unreadable \<Rightarrow> None
      | Pages pages \<Rightarrow>
          (case select_page_text pages of
             None \<Rightarrow> None
           | Some text \<Rightarrow> title_of_text text))"

section \<open>Sequence matching\<close>

text \<open>
  \<open>difflib.SequenceMatcher(None, a, b)\<close> of the Python standard library, as far as
  \<open>ratio()\<close> uses it. The first argument \<open>isjunk\<close> is \<open>None\<close>, so the junk set \<open>bjunk\<close> is
  empty; \<open>autojunk\<close> keeps its default \<open>True\<close>.
\<close>

type_synonym block = "nat \<times> nat \<times> nat"

definition bjunk :: "char set" where
  "bjunk = {}"

text \<open>\<open>__chain_b\<close>, first loop: \<open>b2j\<close> maps each element of \<open>b\<close> to the list of its indices.\<close>

definition b2j_all :: "string \<Rightarrow> (char \<rightharpoonup> nat list)" where
  "b2j_all b =
     fold (\<lambda>(i, elt) b2j. b2j(elt \<mapsto> (case b2j elt of None \<Rightarrow> [] | Some indices \<Rightarrow> indices) @ [i]))
       (enumerate 0 b) Map.empty"

text \<open>\<open>__chain_b\<close>, last loop: for \<open>n \<ge> 200\<close> the elements with more than \<open>n // 100 + 1\<close>
  occurrences are popular and deleted from \<open>b2j\<close>.\<close>

definition chain_b :: "string \<Rightarrow> (char \<rightharpoonup> nat list)" where
  "chain_b b =
     (let b2j = b2j_all b; n = length b in
      if n \<ge> 200 then
        (let ntest = n div 100 + 1 in
         (\<lambda>elt. case b2j elt of
                  None \<Rightarrow> None
                | Some idxs \<Rightarrow> if length idxs > ntest then None else Some idxs))
      else b2j)"

text \<open>\<open>j2len.get(j-1, 0)\<close>: the key \<open>j - 1\<close> is \<open>-1\<close> for \<open>j = 0\<close>, which no dictionary holds.\<close>

definition j2lenget :: "(nat \<rightharpoonup> nat) \<Rightarrow> nat \<Rightarrow> nat" where
  "j2lenget j2len j = (if j = 0 then 0 else (case j2len (j - 1) of None \<Rightarrow> 0 | Some v \<Rightarrow> v))"

text \<open>The inner loop of \<open>find_longest_match\<close> over the indices \<open>j\<close> of \<open>a[i]\<close> in \<open>b\<close>; the state is
  \<open>newj2len\<close> and the best block so far.\<close>

fun inner_loop :: "(nat \<rightharpoonup> nat) \<Rightarrow> nat \<Rightarrow> nat \<Rightarrow> nat \<Rightarrow> nat list
    \<Rightarrow> (nat \<rightharpoonup> nat) \<times> block \<Rightarrow> (nat \<rightharpoonup> nat) \<times> block" where
  "inner_loop j2len blo bhi i [] st = st"
| "inner_loop j2len blo bhi i (j # js) (newj2len, besti, bestj, bestsize) =
     (if j < blo then inner_loop j2len blo bhi i js (newj2len, besti, bestj, bestsize)
      else if j \<ge> bhi then (newj2len, besti, bestj, bestsize)
      else
        (let k = j2lenget j2len j + 1 in
         if k > bestsize
         then inner_loop j2len blo bhi i js (newj2len(j \<mapsto> k), i + 1 - k, j + 1 - k, k)
         else inner_loop j2len blo bhi i js (newj2len(j \<mapsto> k), besti, bestj, bestsize)))"

text \<open>The outer loop \<open>for i in range(alo, ahi)\<close>; the state is \<open>j2len\<close> and the best block.\<close>

fun outer_loop :: "string \<Rightarrow> (char \<rightharpoonup> nat list) \<Rightarrow> nat \<Rightarrow> nat \<Rightarrow> nat list
    \<Rightarrow> (nat \<rightharpoonup> nat) \<times> block \<Rightarrow> block" where
  "outer_loop a b2j blo bhi [] (j2len, best) = best"
| "outer_loop a b2j blo bhi (i # is) (j2len, best) =
     outer_loop a b2j blo bhi is
       (inner_loop j2len blo bhi i (case b2j (a ! i) of None \<Rightarrow> [] | Some js \<Rightarrow> js)
          (Map.empty, best))"

text \<open>The two kinds of \<open>while\<close> loop that extend the best block to the left and to the right;
  \<open>P\<close> is the test on the element of \<open>b\<close> (not junk in the first pair of loops, junk in the
  second).\<close>

function extend_left :: "(char \<Rightarrow> bool) \<Rightarrow> string \<Rightarrow> string \<Rightarrow> nat \<Rightarrow> nat \<Rightarrow> block \<Rightarrow> block" where
  "extend_left P a b alo blo (besti, bestj, bestsize) =
     (if besti > alo \<and> bestj > blo \<and> P (b ! (bestj - 1)) \<and> a ! (besti - 1) = b ! (bestj - 1)
      then extend_left P a b alo blo (besti - 1, bestj - 1, bestsize + 1)
      else (besti, bestj, bestsize))"
  by pat_completeness auto
termination
  by (relation "measure (\<lambda>(P, a, b, alo, blo, besti, bestj, bestsize). besti)") auto

function extend_right :: "(char \<Rightarrow> bool) \<Rightarrow> string \<Rightarrow> string \<Rightarrow> nat \<Rightarrow> nat \<Rightarrow> block \<Rightarrow> block" where
  "extend_right P a b ahi bhi (besti, bestj, bestsize) =
     (if besti + bestsize < ahi \<and> bestj + bestsize < bhi \<and> P (b ! (bestj + bestsize))
         \<and> a ! (besti + bestsize) = b ! (bestj + bestsize)
      then extend_right P a b ahi bhi (besti, bestj, bestsize + 1)
      else (besti, bestj, bestsize))"
  by pat_completeness auto
termination
  by (relation "measure (\<lambda>(P, a, b, ahi, bhi, besti, bestj, bestsize). ahi - (besti + bestsize))")
     auto

definition find_longest_match :: "string \<Rightarrow> string \<Rightarrow> nat \<Rightarrow> nat \<Rightarrow> nat \<Rightarrow> nat \<Rightarrow> block" where
  "find_longest_match a b alo ahi blo bhi =
     (let best = outer_loop a (chain_b b) blo bhi [alo..<ahi] (Map.empty, (alo, blo, 0));
          best = extend_left (\<lambda>x. x \<notin> bjunk) a b alo blo best;
          best = extend_right (\<lambda>x. x \<notin> bjunk) a b ahi bhi best;
          best = extend_left (\<lambda>x. x \<in> bjunk) a b alo blo best;
          best = extend_right (\<lambda>x. x \<in> bjunk) a b ahi bhi best
      in best)"

text \<open>
  \<open>get_matching_blocks\<close>, the loop over \<open>queue\<close>: a range taken from the queue gives its
  longest block and puts the ranges to its left and to its right on the queue. Each range is
  handled on its own, so the blocks are collected here range by range; the order in which the
  queue hands them out is lost in the sort that follows the loop.
\<close>

function matching_blocks_from :: "string \<Rightarrow> string \<Rightarrow> nat \<Rightarrow> nat \<Rightarrow> nat \<Rightarrow> nat \<Rightarrow> block list" where
  "matching_blocks_from a b alo ahi blo bhi =
     (case find_longest_match a b alo ahi blo bhi of
        (i, j, k) \<Rightarrow>
          if k \<noteq> 0 then
            (i, j, k)
              # (if alo < i \<and> blo < j then matching_blocks_from a b alo i blo j else [])
              @ (if i + k < ahi \<and> j + k < bhi then matching_blocks_from a b (i + k) ahi (j + k) bhi
                 else [])
          else [])"
  by pat_completeness auto
termination
proof -
  have inner: "(\<forall>j v. new' j = Some v \<longrightarrow> v \<le> i + 1 - alo) \<and> alo \<le> bi' \<and> bi' + bs' \<le> i + 1"
    if "\<forall>j v. j2len j = Some v \<longrightarrow> v \<le> i - alo" "alo \<le> i"
      "\<forall>j v. new j = Some v \<longrightarrow> v \<le> i + 1 - alo" "alo \<le> bi" "bi + bs \<le> i + 1"
      "inner_loop j2len blo bhi i js (new, bi, bj, bs) = (new', bi', bj', bs')"
    for j2len i alo new bi bs blo bhi js bj new' bi' bj' bs'
    using that
  proof (induction js arbitrary: new bi bj bs)
    case Nil
    then show ?case by simp
  next
    case (Cons j js)
    have "j2lenget j2len j \<le> i - alo"
    proof (cases "j = 0 \<or> j2len (j - 1) = None")
      case True
      then show ?thesis by (auto simp: j2lenget_def)
    next
      case False
      then obtain v where v: "j2len (j - 1) = Some v" by auto
      with Cons.prems(1) have "v \<le> i - alo" by blast
      with v False show ?thesis by (simp add: j2lenget_def)
    qed
    with Cons.prems(2) have k: "j2lenget j2len j + 1 \<le> i + 1 - alo" by arith
    show ?case
    proof (cases "j < blo")
      case True
      then show ?thesis using Cons by simp
    next
      case nb: False
      show ?thesis
      proof (cases "j \<ge> bhi")
        case True
        then show ?thesis using Cons.prems nb by simp
      next
        case False
        show ?thesis
        proof (cases "j2lenget j2len j + 1 > bs")
          case True
          have "inner_loop j2len blo bhi i js
                  (new(j \<mapsto> j2lenget j2len j + 1), i + 1 - (j2lenget j2len j + 1),
                   j + 1 - (j2lenget j2len j + 1), j2lenget j2len j + 1) = (new', bi', bj', bs')"
            using Cons.prems(6) nb False True by (simp add: Let_def)
          then show ?thesis
            using k Cons.prems(1-3) by (intro Cons.IH) auto
        next
          case F2: False
          have "inner_loop j2len blo bhi i js (new(j \<mapsto> j2lenget j2len j + 1), bi, bj, bs)
                  = (new', bi', bj', bs')"
            using Cons.prems(6) nb False F2 by (simp add: Let_def)
          then show ?thesis
            using k Cons.prems(1-5) by (intro Cons.IH) auto
        qed
      qed
    qed
  qed
  have outer: "alo \<le> bi' \<and> bi' + bs' \<le> ahi"
    if "\<forall>j v. j2len j = Some v \<longrightarrow> v \<le> i - alo" "alo \<le> i" "i \<le> ahi"
      "alo \<le> bi" "bi + bs \<le> i"
      "outer_loop a b2j blo bhi [i..<ahi] (j2len, bi, bj, bs) = (bi', bj', bs')"
    for j2len i alo ahi bi bs a b2j blo bhi bj bi' bj' bs'
    using that
  proof (induction "ahi - i" arbitrary: i j2len bi bj bs)
    case 0
    then show ?case by simp
  next
    case (Suc n)
    then have lt: "i < ahi" by simp
    obtain new ci cj cs where st:
      "inner_loop j2len blo bhi i (case b2j (a ! i) of None \<Rightarrow> [] | Some js \<Rightarrow> js)
         (Map.empty, bi, bj, bs) = (new, ci, cj, cs)"
      by (metis prod_cases4)
    have inv: "(\<forall>j v. new j = Some v \<longrightarrow> v \<le> i + 1 - alo) \<and> alo \<le> ci \<and> ci + cs \<le> i + 1"
      using inner[OF Suc.prems(1,2) _ Suc.prems(4) _ st] Suc.prems(5) by simp
    have "outer_loop a b2j blo bhi [Suc i..<ahi] (new, ci, cj, cs) = (bi', bj', bs')"
      using Suc.prems(6) lt st by (simp add: upt_conv_Cons)
    then show ?case
      using inv Suc.hyps(2) Suc.prems(2) lt
      by (intro Suc.hyps(1)[of "Suc i" new ci cs cj]) auto
  qed
  have left: "alo \<le> bi' \<and> bi' + bs' = bi + bs"
    if "extend_left P a b alo blo (bi, bj, bs) = (bi', bj', bs')" "alo \<le> bi"
    for P a b alo blo bi bj bs bi' bj' bs'
    using that
  proof (induction P a b alo blo "(bi, bj, bs)" arbitrary: bi bj bs rule: extend_left.induct)
    case (1 P a b alo blo besti bestj bestsize)
    show ?case
    proof (cases "besti > alo \<and> bestj > blo \<and> P (b ! (bestj - 1))
        \<and> a ! (besti - 1) = b ! (bestj - 1)")
      case True
      then have "extend_left P a b alo blo (besti - 1, bestj - 1, bestsize + 1) = (bi', bj', bs')"
        using "1.prems"(1) by simp
      from "1.hyps"[OF True this] True show ?thesis by auto
    next
      case False
      then show ?thesis using "1.prems" by auto
    qed
  qed
  have right: "bi' = bi \<and> (bi + bs \<le> ahi \<longrightarrow> bi' + bs' \<le> ahi)"
    if "extend_right P a b ahi bhi (bi, bj, bs) = (bi', bj', bs')"
    for P a b ahi bhi bi bj bs bi' bj' bs'
    using that
  proof (induction P a b ahi bhi "(bi, bj, bs)" arbitrary: bi bj bs rule: extend_right.induct)
    case (1 P a b ahi bhi besti bestj bestsize)
    show ?case
    proof (cases "besti + bestsize < ahi \<and> bestj + bestsize < bhi \<and> P (b ! (bestj + bestsize))
           \<and> a ! (besti + bestsize) = b ! (bestj + bestsize)")
      case True
      then have "extend_right P a b ahi bhi (besti, bestj, bestsize + 1) = (bi', bj', bs')"
        using "1.prems"(1) by simp
      from "1.hyps"[OF True this] True show ?thesis by auto
    next
      case False
      then show ?thesis using "1.prems" by auto
    qed
  qed
  have flm: "alo \<le> i \<and> i + k \<le> ahi"
    if eq: "find_longest_match a b alo ahi blo bhi = (i, j, k)" and k: "k \<noteq> 0"
    for a b alo ahi blo bhi i j k
  proof (cases "alo \<le> ahi")
    case True
    obtain i0 j0 k0 where s0:
      "outer_loop a (chain_b b) blo bhi [alo..<ahi] (Map.empty, (alo, blo, 0)) = (i0, j0, k0)"
      by (metis prod_cases3)
    obtain i1 j1 k1 where s1:
      "extend_left (\<lambda>x. x \<notin> bjunk) a b alo blo (i0, j0, k0) = (i1, j1, k1)"
      by (metis prod_cases3)
    obtain i2 j2 k2 where s2:
      "extend_right (\<lambda>x. x \<notin> bjunk) a b ahi bhi (i1, j1, k1) = (i2, j2, k2)"
      by (metis prod_cases3)
    obtain i3 j3 k3 where s3:
      "extend_left (\<lambda>x. x \<in> bjunk) a b alo blo (i2, j2, k2) = (i3, j3, k3)"
      by (metis prod_cases3)
    have s4: "extend_right (\<lambda>x. x \<in> bjunk) a b ahi bhi (i3, j3, k3) = (i, j, k)"
      using eq s0 s1 s2 s3 by (simp add: find_longest_match_def)
    have b0: "alo \<le> i0 \<and> i0 + k0 \<le> ahi"
      using outer[where j2len = Map.empty and i = alo and alo = alo, OF _ _ True _ _ s0] by simp
    have b1: "alo \<le> i1 \<and> i1 + k1 \<le> ahi"
      using left[OF s1] b0 by simp
    have b2: "alo \<le> i2 \<and> i2 + k2 \<le> ahi"
      using right[OF s2] b1 by simp
    have b3: "alo \<le> i3 \<and> i3 + k3 \<le> ahi"
      using left[OF s3] b2 by simp
    show ?thesis
      using right[OF s4] b3 by simp
  next
    case False
    then have "find_longest_match a b alo ahi blo bhi = (alo, blo, 0)"
      by (simp add: find_longest_match_def)
    then show ?thesis using eq k by simp
  qed
  show ?thesis
  proof (relation "measure (\<lambda>(a, b, alo, ahi, blo, bhi). ahi - alo)")
    show "wf (measure (\<lambda>(a, b, alo, ahi, blo, bhi). ahi - alo))" by simp
  next
    fix a b alo ahi blo bhi i y j k
    assume "(i, y) = find_longest_match a b alo ahi blo bhi" "(j, k) = y" "k \<noteq> 0"
      "alo < i \<and> blo < j"
    then have "find_longest_match a b alo ahi blo bhi = (i, j, k)" by simp
    from flm[OF this \<open>k \<noteq> 0\<close>] \<open>k \<noteq> 0\<close> \<open>alo < i \<and> blo < j\<close>
    have "i - alo < ahi - alo" by arith
    then show "((a, b, alo, i, blo, j), a, b, alo, ahi, blo, bhi)
        \<in> measure (\<lambda>(a, b, alo, ahi, blo, bhi). ahi - alo)"
      by simp
  next
    fix a b alo ahi blo bhi i y j k
    assume "(i, y) = find_longest_match a b alo ahi blo bhi" "(j, k) = y" "k \<noteq> 0"
      "i + k < ahi \<and> j + k < bhi"
    then have "find_longest_match a b alo ahi blo bhi = (i, j, k)" by simp
    from flm[OF this \<open>k \<noteq> 0\<close>] \<open>k \<noteq> 0\<close> \<open>i + k < ahi \<and> j + k < bhi\<close>
    have "ahi - (i + k) < ahi - alo" by arith
    then show "((a, b, i + k, ahi, j + k, bhi), a, b, alo, ahi, blo, bhi)
        \<in> measure (\<lambda>(a, b, alo, ahi, blo, bhi). ahi - alo)"
      by simp
  qed
qed

declare matching_blocks_from.simps [simp del]

text \<open>The loop that merges adjacent blocks: the state is the block \<open>(i1, j1, k1)\<close> compared
  against and the list \<open>non_adjacent\<close>.\<close>

fun collapse_loop :: "block list \<Rightarrow> block \<Rightarrow> block list \<Rightarrow> block \<times> block list" where
  "collapse_loop [] cur non_adjacent = (cur, non_adjacent)"
| "collapse_loop ((i2, j2, k2) # rest) (i1, j1, k1) non_adjacent =
     (if i1 + k1 = i2 \<and> j1 + k1 = j2 then collapse_loop rest (i1, j1, k1 + k2) non_adjacent
      else collapse_loop rest (i2, j2, k2)
             (if k1 \<noteq> 0 then non_adjacent @ [(i1, j1, k1)] else non_adjacent))"

definition get_matching_blocks :: "string \<Rightarrow> string \<Rightarrow> block list" where
  "get_matching_blocks a b =
     (let la = length a; lb = length b;
          matching_blocks = sort (matching_blocks_from a b 0 la 0 lb)
      in case collapse_loop matching_blocks (0, 0, 0) [] of
           ((i1, j1, k1), non_adjacent) \<Rightarrow>
             (if k1 \<noteq> 0 then non_adjacent @ [(i1, j1, k1)] else non_adjacent) @ [(la, lb, 0)])"

text \<open>
  \<open>_calculate_ratio\<close> and \<open>ratio\<close>. Python computes \<open>2.0 * matches / length\<close> in binary
  floating point; the model keeps the exact quotient as a rational number. The float is that
  quotient correctly rounded, so it preserves \<open>\<le>\<close>, it is exact for a quotient such as \<open>1\<close>,
  \<open>1/2\<close> or \<open>1/4\<close>, and two different quotients of strings shorter than \<open>2^26\<close> characters
  give different floats.
\<close>

definition calculate_ratio :: "nat \<Rightarrow> nat \<Rightarrow> rat" where
  "calculate_ratio matches len = (if len \<noteq> 0 then 2 * of_nat matches / of_nat len else 1)"

definition ratio :: "string \<Rightarrow> string \<Rightarrow> rat" where
  "ratio a b =
     (let matches = sum_list (map (\<lambda>(i, j, k). k) (get_matching_blocks a b))
      in calculate_ratio matches (length a + length b))"

section \<open>Cross-collection matcher\<close>

text \<open>
  A file that \<open>get_pdf_files\<close> enumerates: its path relative to the folder, whether
  \<open>is_file()\<close> holds, and what the PDF reader gives for it. The name of the file, and so
  its suffix, is read from the path.
\<close>

record pdf_file =
  rel_path :: string
  is_file :: bool
  content :: pdf

text \<open>\<open>PurePath.name\<close>: the final component of the path.\<close>

definition path_name :: "string \<Rightarrow> string" where
  "path_name p = rev (takeWhile (\<lambda>c. c \<noteq> CHR ''/'') (rev p))"

text \<open>\<open>name.rfind('.')\<close>: the index of the last period; \<open>None\<close> is the result \<open>-1\<close>.\<close>

definition rfind_dot :: "string \<Rightarrow> nat option" where
  "rfind_dot name =
     (let r = dropWhile (\<lambda>c. c \<noteq> CHR ''.'') (rev name)
      in if r = [] then None else Some (length r - 1))"

text \<open>\<open>PurePath.suffix\<close>: the last suffix of the final component with its period, empty when
  the name has no period, starts with its only period or ends with a period.\<close>

definition suffix :: "string \<Rightarrow> string" where
  "suffix p =
     (let name = path_name p in
      case rfind_dot name of
        None \<Rightarrow> []
      | Some i \<Rightarrow> if 0 < i \<and> i < length name - 1 then drop i name else [])"

record title_info =
  original :: string
  normalized :: string

record match_candidate =
  path_a :: string
  path_b :: string
  title_a :: string
  title_b :: string
  similarity :: rat

text \<open>\<open>d[key] = value\<close> on a dictionary kept in insertion order: a key already present keeps its
  place and takes the new value.\<close>

fun dict_set :: "('k \<times> 'v) list \<Rightarrow> 'k \<Rightarrow> 'v \<Rightarrow> ('k \<times> 'v) list" where
  "dict_set [] key v = [(key, v)]"
| "dict_set ((key', v') # d) key v =
     (if key' = key then (key, v) # d else (key', v') # dict_set d key v)"

text \<open>The loop of lines 108 to 120 over \<open>files_a\<close>; the state is \<open>folder_a_titles\<close>.\<close>

fun index_loop :: "pdf_file list \<Rightarrow> (string \<times> title_info) list \<Rightarrow> (string \<times> title_info) list" where
  "index_loop [] folder_a_titles = folder_a_titles"
| "index_loop (file_path # files) folder_a_titles =
     (if is_file file_path \<and> lower (suffix (rel_path file_path)) = ''.pdf'' then
        (case extract_title_from_pdf (content file_path) of
           None \<Rightarrow> index_loop files folder_a_titles
         | Some title \<Rightarrow>
             if title \<noteq> [] then
               index_loop files
                 (dict_set folder_a_titles (rel_path file_path)
                    \<lparr>original = title, normalized = normalize_title (Some title)\<rparr>)
             else index_loop files folder_a_titles)
      else index_loop files folder_a_titles)"

text \<open>The loop of lines 138 to 151 over \<open>folder_a_titles.items()\<close>; the state is
  \<open>similar_papers\<close>. The variables \<open>path_a\<close>, \<open>title_b\<close> and \<open>similarity\<close> of the source are
  \<open>pa\<close>, \<open>tb\<close> and \<open>sim\<close> here, apart from the fields of the same names.\<close>

fun compare_loop :: "(string \<times> title_info) list \<Rightarrow> string \<Rightarrow> string \<Rightarrow> string \<Rightarrow> rat
    \<Rightarrow> match_candidate list \<Rightarrow> match_candidate list" where
  "compare_loop [] relative_path_b tb normalized_title_b threshold similar_papers =
     similar_papers"
| "compare_loop ((pa, title_info_a) # items) relative_path_b tb normalized_title_b
       threshold similar_papers =
     (let normalized_title_a = normalized title_info_a;
          sim = ratio normalized_title_a normalized_title_b
      in compare_loop items relative_path_b tb normalized_title_b threshold
           (if sim \<ge> threshold
            then similar_papers @
              [\<lparr>path_a = pa, path_b = relative_path_b, title_a = original title_info_a,
                title_b = tb, similarity = sim\<rparr>]
            else similar_papers))"

text \<open>The loop of lines 129 to 153 over \<open>files_b\<close>.\<close>

fun match_loop :: "(string \<times> title_info) list \<Rightarrow> pdf_file list \<Rightarrow> rat
    \<Rightarrow> match_candidate list \<Rightarrow> match_candidate list" where
  "match_loop folder_a_titles [] threshold similar_papers = similar_papers"
| "match_loop folder_a_titles (file_path # files) threshold similar_papers =
     (if is_file file_path \<and> lower (suffix (rel_path file_path)) = ''.pdf'' then
        (case extract_title_from_pdf (content file_path) of
           None \<Rightarrow> match_loop folder_a_titles files threshold similar_papers
         | Some tb \<Rightarrow>
             if tb \<noteq> [] then
               match_loop folder_a_titles files threshold
                 (compare_loop folder_a_titles (rel_path file_path) tb
                    (normalize_title (Some tb)) threshold similar_papers)
             else match_loop folder_a_titles files threshold similar_papers)
      else match_loop folder_a_titles files threshold similar_papers)"

text \<open>\<open>xs.sort(key=key, reverse=True)\<close>: the list is reversed, sorted by a stable ascending
  sort, and reversed again.\<close>

definition sort_reverse :: "('a \<Rightarrow> 'k::linorder) \<Rightarrow> 'a list \<Rightarrow> 'a list" where
  "sort_reverse key xs = rev (sort_key key (rev xs))"

text \<open>\<open>find_similar_titles\<close>, on the files the two folders hold. The similarity and the
  threshold are rational numbers in place of floats (see \<^const>\<open>calculate_ratio\<close>).\<close>

definition similar_papers_of :: "pdf_file list \<Rightarrow> pdf_file list \<Rightarrow> rat \<Rightarrow> match_candidate list" where
  "similar_papers_of files_a files_b similarity_threshold =
     match_loop (index_loop files_a []) files_b similarity_threshold []"

definition find_similar_titles :: "pdf_file list \<Rightarrow> pdf_file list \<Rightarrow> rat \<Rightarrow> match_candidate list" where
  "find_similar_titles files_a files_b similarity_threshold =
     sort_reverse similarity (similar_papers_of files_a files_b similarity_threshold)"

section \<open>Auxiliary notions\<close>

text \<open>A string in which every whitespace character is a space and no space follows another.\<close>

fun single_spaced :: "string \<Rightarrow> bool" where
  "single_spaced [] = True"
| "single_spaced [c] = (is_space c \<longrightarrow> c = CHR '' '')"
| "single_spaced (c # d # cs) =
     ((is_space c \<longrightarrow> c = CHR '' '' \<and> \<not> is_space d) \<and> single_spaced (d # cs))"

text \<open>
  The scan of the title extractor as the specification words it: every line is inspected and
  kept or discarded, and after each line, kept or not, the scan stops once the index has
  reached 2 (the third line) and a candidate exists.
\<close>

fun title_loop_claimed :: "nat \<Rightarrow> string list \<Rightarrow> string list \<Rightarrow> string list" where
  "title_loop_claimed i [] potential_title_lines = potential_title_lines"
| "title_loop_claimed i (line # rest) potential_title_lines =
     (let potential_title_lines =
            (if skip_search line \<or> length line < 10 \<or> skip_match line then potential_title_lines
             else potential_title_lines @ [line])
      in if i \<ge> 2 \<and> length potential_title_lines > 0 then potential_title_lines
         else title_loop_claimed (i + 1) rest potential_title_lines)"

text \<open>The maximal runs of word characters of a string, in order: the string split at every
  character that is not a word character, without the empty pieces.\<close>

function word_runs :: "string \<Rightarrow> string list" where
  "word_runs [] = []"
| "word_runs (c # cs) =
     (if is_word c then takeWhile is_word (c # cs) # word_runs (dropWhile is_word cs)
      else word_runs cs)"
  by pat_completeness auto
termination
  by (relation "measure length") (auto simp: le_imp_less_Suc length_dropWhile_le)

text \<open>A line that none of the three discard rules of the scan removes.\<close>

definition survives :: "string \<Rightarrow> bool" where
  "survives line = (\<not> skip_search line \<and> \<not> length line < 10 \<and> \<not> skip_match line)"

text \<open>The number of consecutive elements just before position \<open>m\<close> of \<open>s\<close> that \<open>b2j\<close> holds
  as keys, that is, that are not popular.\<close>

definition run_len :: "string \<Rightarrow> nat \<Rightarrow> nat" where
  "run_len s m = length (takeWhile (\<lambda>c. chain_b s c \<noteq> None) (rev (take m s)))"

section \<open>Properties of the text normalizer\<close>

lemma is_space_space: "is_space (CHR '' '')"
  by (simp add: is_space_def code_def)

lemma lower_char_space: "lower_char (CHR '' '') = CHR '' ''"
  by (simp add: lower_char_def code_def)

lemma code_lower_char:
  "code (lower_char c) = (if (65 \<le> code c \<and> code c \<le> 90) \<or> (192 \<le> code c \<and> code c \<le> 222 \<and> code c \<noteq> 215) then code c + 32 else code c)"
  by (auto simp: lower_char_def code_def)

lemma lower_char_idem: "lower_char (lower_char c) = lower_char c"
proof -
  have "\<not> ((65 \<le> code (lower_char c) \<and> code (lower_char c) \<le> 90)
       \<or> (192 \<le> code (lower_char c) \<and> code (lower_char c) \<le> 222 \<and> code (lower_char c) \<noteq> 215))"
    unfolding code_lower_char by auto
  moreover have "lower_char x = x"
    if "\<not> ((65 \<le> code x \<and> code x \<le> 90) \<or> (192 \<le> code x \<and> code x \<le> 222 \<and> code x \<noteq> 215))" for x
    using that by (auto simp: lower_char_def)
  ultimately show ?thesis by blast
qed

lemma word_not_space: "is_word c \<Longrightarrow> \<not> is_space c"
  by (auto simp: is_word_def is_alnum_def is_space_def code_def)

lemma lower_idem: "lower (lower s) = lower s"
  by (simp add: lower_def lower_char_idem)


lemma set_sub_spaces: "set (sub_spaces s) \<subseteq> insert (CHR '' '') {c \<in> set s. \<not> is_space c}"
proof (induction s rule: sub_spaces.induct)
  case 1
  then show ?case by simp
next
  case (2 c cs)
  show ?case
  proof (cases "is_space c")
    case True
    have "set (dropWhile is_space cs) \<subseteq> set cs" by (meson set_dropWhileD subsetI)
    with 2(1)[OF True] True show ?thesis by auto
  next
    case False
    with 2(2)[OF False] show ?thesis by auto
  qed
qed

lemma sub_spaces_hd:
  "s \<noteq> [] \<Longrightarrow> \<not> is_space (hd s) \<Longrightarrow> sub_spaces s \<noteq> [] \<and> hd (sub_spaces s) = hd s"
  by (cases s) auto

lemma single_spaced_Cons:
  "single_spaced (c # cs) =
     ((is_space c \<longrightarrow> c = CHR '' '' \<and> (cs \<noteq> [] \<longrightarrow> \<not> is_space (hd cs))) \<and> single_spaced cs)"
  by (cases cs) auto

lemma single_spaced_tl: "single_spaced (c # cs) \<Longrightarrow> single_spaced cs"
  by (simp add: single_spaced_Cons)

lemma single_spaced_sub_spaces: "single_spaced (sub_spaces s)"
proof (induction s rule: sub_spaces.induct)
  case 1
  then show ?case by simp
next
  case (2 c cs)
  show ?case
  proof (cases "is_space c")
    case True
    let ?r = "dropWhile is_space cs"
    have "?r \<noteq> [] \<Longrightarrow> \<not> is_space (hd ?r)" by (rule hd_dropWhile)
    then have "sub_spaces ?r \<noteq> [] \<Longrightarrow> \<not> is_space (hd (sub_spaces ?r))"
      using sub_spaces_hd[of ?r] by (cases ?r) auto
    with 2(1)[OF True] True show ?thesis
      by (simp add: single_spaced_Cons)
  next
    case False
    with 2(2)[OF False] show ?thesis by (simp add: single_spaced_Cons)
  qed
qed

lemma sub_spaces_fixed: "single_spaced s \<Longrightarrow> sub_spaces s = s"
proof (induction s rule: sub_spaces.induct)
  case 1
  then show ?case by simp
next
  case (2 c cs)
  show ?case
  proof (cases "is_space c")
    case True
    with 2(3) have c: "c = CHR '' ''" and h: "cs \<noteq> [] \<longrightarrow> \<not> is_space (hd cs)" and t: "single_spaced cs"
      by (simp_all add: single_spaced_Cons)
    from h have d: "dropWhile is_space cs = cs" by (cases cs) auto
    from 2(1)[OF True] t d have "sub_spaces cs = cs" by simp
    with True c d show ?thesis by simp
  next
    case False
    with 2(2)[OF False] 2(3) show ?thesis by (simp add: single_spaced_Cons)
  qed
qed

lemma single_spaced_drop: "single_spaced s \<Longrightarrow> single_spaced (drop n s)"
proof (induction n arbitrary: s)
  case 0
  then show ?case by simp
next
  case (Suc n)
  then show ?case by (cases s) (auto dest: single_spaced_tl)
qed

lemma single_spaced_append: "single_spaced (xs @ ys) \<Longrightarrow> single_spaced xs"
proof (induction xs)
  case Nil
  then show ?case by simp
next
  case (Cons c xs)
  then have "single_spaced xs" by (simp add: single_spaced_Cons)
  with Cons.prems show ?case
    by (cases xs) (auto simp: single_spaced_Cons)
qed

lemma single_spaced_take: "single_spaced s \<Longrightarrow> single_spaced (take n s)"
  using single_spaced_append[of "take n s" "drop n s"] by simp

lemma strip_eq: "\<exists>m n. strip s = take m (drop n s)"
proof -
  have "strip s = rev (drop (length (takeWhile is_space (rev (dropWhile is_space s)))) (rev (dropWhile is_space s)))"
    by (simp add: strip_def dropWhile_eq_drop[symmetric])
  also have "\<dots> = take (length (dropWhile is_space s) - length (takeWhile is_space (rev (dropWhile is_space s)))) (dropWhile is_space s)"
    by (simp add: rev_drop)
  also have "dropWhile is_space s = drop (length (takeWhile is_space s)) s"
    by (simp add: dropWhile_eq_drop)
  finally show ?thesis by blast
qed

lemma single_spaced_strip: "single_spaced s \<Longrightarrow> single_spaced (strip s)"
proof -
  assume a: "single_spaced s"
  obtain m n where "strip s = take m (drop n s)" using strip_eq by blast
  then show ?thesis using single_spaced_take[OF single_spaced_drop[OF a]] by simp
qed

lemma set_strip: "set (strip s) \<subseteq> set s"
proof -
  obtain m n where "strip s = take m (drop n s)" using strip_eq by blast
  then show ?thesis using set_take_subset[of m "drop n s"] set_drop_subset[of n s] by auto
qed

lemma strip_ends: "strip s \<noteq> [] \<Longrightarrow> \<not> is_space (hd (strip s)) \<and> \<not> is_space (last (strip s))"
proof -
  assume ne: "strip s \<noteq> []"
  let ?d = "dropWhile is_space s"
  let ?e = "dropWhile is_space (rev ?d)"
  have e: "?e \<noteq> []" using ne by (simp add: strip_def)
  then have 1: "\<not> is_space (hd ?e)" by (rule hd_dropWhile)
  have l: "last (strip s) = hd ?e" using e by (simp add: strip_def last_rev)
  have "?d \<noteq> []" using e by (cases "?d = []") simp_all
  then have 2: "\<not> is_space (hd ?d)" by (rule hd_dropWhile)
  have "\<exists>n. ?e = drop n (rev ?d)" by (metis dropWhile_eq_drop)
  then obtain n where n: "?e = drop n (rev ?d)" by blast
  then have "strip s = take (length ?d - n) ?d" by (simp add: strip_def rev_drop)
  with ne have "hd (strip s) = hd ?d" by (metis hd_take take_eq_Nil gr0I)
  with 1 2 l show ?thesis by simp
qed

lemma strip_fixed: "s = [] \<or> (\<not> is_space (hd s) \<and> \<not> is_space (last s)) \<Longrightarrow> strip s = s"
proof (cases "s = []")
  case True
  then show ?thesis by (simp add: strip_def)
next
  case False
  assume "s = [] \<or> (\<not> is_space (hd s) \<and> \<not> is_space (last s))"
  with False have h: "\<not> is_space (hd s)" and l: "\<not> is_space (last s)" by auto
  from False h have 1: "dropWhile is_space s = s" by (cases s) auto
  from False l have 2: "dropWhile is_space (rev s) = rev s"
    by (cases "rev s") (auto simp: hd_rev[symmetric])
  show ?thesis by (simp add: strip_def 1 2)
qed

lemma normalize_chars:
  "c \<in> set (normalize_title x) \<Longrightarrow> (is_word c \<or> c = CHR '' '') \<and> lower_char c = c"
proof (cases x)
  case None
  assume "c \<in> set (normalize_title x)"
  with None show ?thesis by (simp add: normalize_title_def)
next
  case (Some t)
  assume c: "c \<in> set (normalize_title x)"
  with Some have ne: "t \<noteq> []" and "c \<in> set (strip (sub_spaces (sub_special (lower t))))"
    by (auto simp: normalize_title_def split: if_splits)
  then have "c \<in> set (sub_spaces (sub_special (lower t)))" using set_strip by blast
  then have "c = CHR '' '' \<or> (c \<in> set (sub_special (lower t)) \<and> \<not> is_space c)"
    using set_sub_spaces by blast
  then show ?thesis
  proof
    assume "c = CHR '' ''"
    then show ?thesis by (simp add: lower_char_space)
  next
    assume a: "c \<in> set (sub_special (lower t)) \<and> \<not> is_space c"
    then obtain d where d: "d \<in> set t"
      and cd: "c = (if is_word (lower_char d) \<or> is_space (lower_char d) then lower_char d else CHR '' '')"
      by (auto simp: sub_special_def lower_def)
    show ?thesis
    proof (cases "is_word (lower_char d) \<or> is_space (lower_char d)")
      case True
      with cd a show ?thesis by (auto simp: lower_char_idem)
    next
      case False
      with cd show ?thesis by (simp add: lower_char_space)
    qed
  qed
qed

lemma normalize_single_spaced: "single_spaced (normalize_title x)"
  by (auto simp: normalize_title_def single_spaced_strip single_spaced_sub_spaces split: option.splits)

lemma normalize_ends:
  "normalize_title x \<noteq> [] \<Longrightarrow>
     \<not> is_space (hd (normalize_title x)) \<and> \<not> is_space (last (normalize_title x))"
  by (auto simp: normalize_title_def strip_ends split: option.splits if_splits)

lemma single_spaced_nth:
  "single_spaced s \<Longrightarrow> Suc i < length s \<Longrightarrow> \<not> (is_space (s ! i) \<and> is_space (s ! Suc i))"
proof (induction s arbitrary: i rule: single_spaced.induct)
  case 1
  then show ?case by simp
next
  case (2 c)
  then show ?case by simp
next
  case (3 c d cs)
  then show ?case by (cases i) auto
qed

lemma space_not_word: "\<not> is_word (CHR '' '')"
  using word_not_space[of "CHR '' ''"] is_space_space by blast

lemma sub_special_word: "is_word (if is_word c \<or> is_space c then c else CHR '' '') = is_word c"
  using word_not_space[of "CHR '' ''"] is_space_space by auto

lemma sub_special_Nil: "sub_special [] = []"
  by (simp add: sub_special_def)

lemma sub_special_Cons:
  "sub_special (c # cs) = (if is_word c \<or> is_space c then c else CHR '' '') # sub_special cs"
  by (simp add: sub_special_def)

lemma takeWhile_sub_special: "takeWhile is_word (sub_special s) = takeWhile is_word s"
  by (induction s) (auto simp: sub_special_Nil sub_special_Cons space_not_word)

lemma dropWhile_sub_special: "dropWhile is_word (sub_special s) = sub_special (dropWhile is_word s)"
  by (induction s) (auto simp: sub_special_Nil sub_special_Cons space_not_word)

lemma word_runs_sub_special: "word_runs (sub_special s) = word_runs s"
proof (induction s rule: word_runs.induct)
  case 1
  then show ?case by (simp add: sub_special_def)
next
  case (2 c cs)
  show ?case
  proof (cases "is_word c")
    case True
    have "word_runs (sub_special (c # cs)) =
        (c # takeWhile is_word (sub_special cs)) # word_runs (dropWhile is_word (sub_special cs))"
      using True by (simp add: sub_special_Cons)
    also have "\<dots> = (c # takeWhile is_word cs) # word_runs (dropWhile is_word cs)"
      using 2(1)[OF True] by (simp add: takeWhile_sub_special dropWhile_sub_special)
    finally show ?thesis using True by simp
  next
    case False
    then have "\<not> is_word (if is_word c \<or> is_space c then c else CHR '' '')"
      by (simp add: space_not_word)
    then have "word_runs (sub_special (c # cs)) = word_runs (sub_special cs)"
      unfolding sub_special_Cons by (subst word_runs.simps) simp
    then show ?thesis using False 2(2)[OF False] by simp
  qed
qed

lemma sub_special_chars: "c \<in> set (sub_special s) \<Longrightarrow> is_word c \<or> is_space c"
  using is_space_space by (auto simp: sub_special_def)

lemma dropWhile_sub_spaces:
  "dropWhile is_space (sub_spaces z) = sub_spaces (dropWhile is_space z)"
proof (cases z)
  case Nil
  then show ?thesis by simp
next
  case (Cons c cs)
  show ?thesis
  proof (cases "is_space c")
    case True
    let ?y = "dropWhile is_space cs"
    have h: "sub_spaces ?y = [] \<or> \<not> is_space (hd (sub_spaces ?y))"
    proof (cases "?y = []")
      case True
      then have "sub_spaces ?y = []" by (simp only: sub_spaces.simps)
      then show ?thesis by blast
    next
      case False
      then have "\<not> is_space (hd ?y)" by (rule hd_dropWhile)
      with False sub_spaces_hd[of ?y] show ?thesis by simp
    qed
    have "dropWhile is_space x = x" if "x = [] \<or> \<not> is_space (hd x)" for x
      using that by (cases x) auto
    from this[OF h] have "dropWhile is_space (sub_spaces ?y) = sub_spaces ?y" .
    then show ?thesis using Cons True by (simp add: is_space_space)
  next
    case False
    then show ?thesis using Cons by simp
  qed
qed

lemma word_runs_dropWhile_space: "word_runs (dropWhile is_space z) = word_runs z"
proof (induction z)
  case Nil
  then show ?case by simp
next
  case (Cons c cs)
  show ?case
  proof (cases "is_space c")
    case True
    then have "\<not> is_word c" using word_not_space by blast
    with True Cons show ?thesis by simp
  next
    case False
    then show ?thesis by simp
  qed
qed

lemma sub_spaces_append:
  "\<forall>c\<in>set u. \<not> is_space c \<Longrightarrow> sub_spaces (u @ r) = u @ sub_spaces r"
  by (induction u) auto

lemma rstrip_fixed:
  "x \<noteq> [] \<Longrightarrow> \<not> is_space (last x) \<Longrightarrow> rev (dropWhile is_space (rev x)) = x"
proof -
  assume "x \<noteq> []" "\<not> is_space (last x)"
  then have "dropWhile is_space (rev x) = rev x"
    by (cases "rev x") (auto simp: hd_rev[symmetric])
  then show ?thesis by simp
qed

lemma rstrip_append:
  "rev (dropWhile is_space (rev v)) \<noteq> [] \<Longrightarrow>
   rev (dropWhile is_space (rev (p @ v))) = p @ rev (dropWhile is_space (rev v))"
proof -
  assume "rev (dropWhile is_space (rev v)) \<noteq> []"
  then have "dropWhile is_space (rev v) \<noteq> []" by simp
  then obtain x where "x \<in> set (rev v)" "\<not> is_space x"
    by (auto simp: dropWhile_eq_Nil_conv)
  then have "dropWhile is_space (rev v @ rev p) = dropWhile is_space (rev v) @ rev p"
    by (rule dropWhile_append1)
  then show ?thesis by simp
qed

lemma join_space_nonempty: "x \<noteq> [] \<Longrightarrow> join_space (x # xs) \<noteq> []"
  by (cases xs) auto

lemma join_space_Cons: "xs \<noteq> [] \<Longrightarrow> join_space (x # xs) = x @ CHR '' '' # join_space xs"
  by (cases xs) auto

lemma rstrip_sub_spaces:
  "\<forall>c\<in>set y. is_word c \<or> is_space c \<Longrightarrow> y = [] \<or> \<not> is_space (hd y) \<Longrightarrow>
   rev (dropWhile is_space (rev (sub_spaces y))) = join_space (word_runs y)"
proof (induction y rule: length_induct)
  case (1 y)
  show ?case
  proof (cases y)
    case Nil
    then show ?thesis by simp
  next
    case (Cons c cs)
    with "1.prems" have nsc: "\<not> is_space c" and wc: "is_word c" by auto
    define u where "u = takeWhile is_word (c # cs)"
    define r where "r = dropWhile is_word cs"
    have u: "u = c # takeWhile is_word cs" using wc by (simp add: u_def)
    have y: "y = u @ r" using Cons wc by (simp add: u_def r_def)
    have un: "\<forall>c\<in>set u. \<not> is_space c"
      unfolding u_def using word_not_space by (metis set_takeWhileD)
    have ul: "u \<noteq> []" "\<not> is_space (last u)"
    proof -
      show "u \<noteq> []" using u by simp
      then have "last u \<in> set u" by simp
      with un show "\<not> is_space (last u)" by blast
    qed
    have wr: "word_runs y = u # word_runs r" using Cons wc by (simp add: u_def r_def)
    have ss: "sub_spaces y = u @ sub_spaces r"
      using sub_spaces_append[OF un, of r] y by simp
    show ?thesis
    proof (cases r)
      case Nil
      then show ?thesis using ss wr rstrip_fixed[OF ul] by simp
    next
      case (Cons s rs)
      have "r \<noteq> [] \<Longrightarrow> \<not> is_word (hd r)" unfolding r_def by (rule hd_dropWhile)
      with Cons have nws: "\<not> is_word s" by simp
      have "s \<in> set y" using Cons y by simp
      with nws "1.prems"(1) have sps: "is_space s" by blast
      define y' where "y' = dropWhile is_space rs"
      have ssr: "sub_spaces r = CHR '' '' # sub_spaces y'" using Cons sps by (simp add: y'_def)
      have wrr: "word_runs r = word_runs y'"
        using Cons nws by (simp add: y'_def word_runs_dropWhile_space)
      have sub: "set y' \<subseteq> set y"
      proof
        fix x assume "x \<in> set y'"
        then have "x \<in> set rs" unfolding y'_def by (rule set_dropWhileD)
        then show "x \<in> set y" using Cons y by simp
      qed
      have len: "length y' < length y"
      proof -
        have "length y' \<le> length rs" unfolding y'_def by (rule length_dropWhile_le)
        then show ?thesis using Cons y by simp
      qed
      have ws': "\<forall>c\<in>set y'. is_word c \<or> is_space c" using sub "1.prems"(1) by blast
      have hd': "y' = [] \<or> \<not> is_space (hd y')"
        unfolding y'_def using hd_dropWhile[of is_space rs] by blast
      from "1.IH" len ws' hd'
      have ih: "rev (dropWhile is_space (rev (sub_spaces y'))) = join_space (word_runs y')"
        by blast
      show ?thesis
      proof (cases "y' = []")
        case True
        have "rev (dropWhile is_space (rev (u @ [CHR '' '']))) = u"
          using rstrip_fixed[OF ul] by (simp add: is_space_space)
        then show ?thesis using ss ssr wr wrr True by simp
      next
        case False
        then obtain d ds where d: "y' = d # ds" by (cases y') auto
        with hd' ws' have wd: "is_word d" by auto
        with d have wne: "word_runs y' = takeWhile is_word (d # ds) # word_runs (dropWhile is_word ds)"
          by simp
        have tne: "takeWhile is_word (d # ds) \<noteq> []" using wd by simp
        have jne: "join_space (word_runs y') \<noteq> []"
          unfolding wne by (rule join_space_nonempty[OF tne])
        have "rev (dropWhile is_space (rev ((u @ [CHR '' '']) @ sub_spaces y')))
            = (u @ [CHR '' '']) @ rev (dropWhile is_space (rev (sub_spaces y')))"
          by (rule rstrip_append) (use ih jne in simp)
        then have l: "rev (dropWhile is_space (rev (sub_spaces y)))
            = u @ CHR '' '' # join_space (word_runs y')"
          using ss ssr ih by simp
        have "word_runs y' \<noteq> []" using wne by simp
        then have "join_space (word_runs y) = u @ CHR '' '' # join_space (word_runs y')"
          unfolding wr wrr by (rule join_space_Cons)
        with l show ?thesis by simp
      qed
    qed
  qed
qed

lemma normalize_title_word_runs:
  "normalize_title (Some t) = join_space (word_runs (lower t))"
proof (cases "t = []")
  case True
  then show ?thesis by (simp add: normalize_title_def lower_def)
next
  case False
  let ?z = "sub_special (lower t)"
  let ?y = "dropWhile is_space ?z"
  have ws: "\<forall>c\<in>set ?y. is_word c \<or> is_space c"
    using sub_special_chars by (meson set_dropWhileD)
  have hd: "?y = [] \<or> \<not> is_space (hd ?y)" using hd_dropWhile[of is_space ?z] by blast
  have "normalize_title (Some t) = rev (dropWhile is_space (rev (dropWhile is_space (sub_spaces ?z))))"
    using False by (simp add: normalize_title_def strip_def)
  also have "\<dots> = rev (dropWhile is_space (rev (sub_spaces ?y)))"
    by (simp only: dropWhile_sub_spaces)
  also have "\<dots> = join_space (word_runs ?y)" by (rule rstrip_sub_spaces[OF ws hd])
  also have "\<dots> = join_space (word_runs (lower t))"
    by (simp only: word_runs_dropWhile_space word_runs_sub_special)
  finally show ?thesis .
qed

text \<open>
  Claim C5, as the code has it. \<open>normalize_title\<close> replaces every character that is neither a
  word character of \<open>\w\<close> (alphanumeric or the underscore) nor whitespace by a space, before
  it collapses whitespace and trims. Its output is therefore exactly the maximal runs of word
  characters of the lower-cased input, in order, joined by single spaces: every character
  that is not a word character separates two runs, and the underscore, a word character, is
  kept. The output holds only word characters and spaces, and no two spaces are adjacent.
\<close>

theorem normalize_title_output:
  "normalize_title (Some t) = join_space (word_runs (lower t))
   \<and> (\<forall>c \<in> set (normalize_title x). is_word c \<or> c = CHR '' '')
   \<and> (\<forall>i. Suc i < length (normalize_title x) \<longrightarrow>
         \<not> (normalize_title x ! i = CHR '' '' \<and> normalize_title x ! Suc i = CHR '' ''))"
proof (intro conjI ballI allI impI)
  show "normalize_title (Some t) = join_space (word_runs (lower t))"
    by (rule normalize_title_word_runs)
next
  fix c assume "c \<in> set (normalize_title x)"
  then show "is_word c \<or> c = CHR '' ''" using normalize_chars by blast
next
  fix i assume "Suc i < length (normalize_title x)"
  from single_spaced_nth[OF normalize_single_spaced this]
  show "\<not> (normalize_title x ! i = CHR '' '' \<and> normalize_title x ! Suc i = CHR '' '')"
    using is_space_space by auto
qed

theorem normalize_title_output_witness:
  "word_runs (lower ''A-_b'') = [''a'', ''_b'']
   \<and> normalize_title (Some ''A-_b'') = ''a _b''
   \<and> CHR ''_'' \<in> set (normalize_title (Some ''A-_b'')) \<and> is_word (CHR ''_'')
   \<and> Suc 1 < length (normalize_title (Some ''A-_b''))
   \<and> \<not> (normalize_title (Some ''A-_b'') ! 1 = CHR '' ''
        \<and> normalize_title (Some ''A-_b'') ! Suc 1 = CHR '' '')"
proof -
  note th = normalize_title_output[of "''A-_b''" "Some ''A-_b''"]
  have r: "word_runs (lower ''A-_b'') = [''a'', ''_b'']" by code_simp
  from th have "normalize_title (Some ''A-_b'') = join_space (word_runs (lower ''A-_b''))"
    by (rule conjunct1)
  then have v: "normalize_title (Some ''A-_b'') = ''a _b''" unfolding r by simp
  have m: "CHR ''_'' \<in> set (normalize_title (Some ''A-_b''))" unfolding v by simp
  from th m have w: "is_word (CHR ''_'')" by blast
  have l: "Suc 1 < length (normalize_title (Some ''A-_b''))" unfolding v by simp
  from th l have n: "\<not> (normalize_title (Some ''A-_b'') ! 1 = CHR '' ''
        \<and> normalize_title (Some ''A-_b'') ! Suc 1 = CHR '' '')"
    by blast
  from r v m w l n show ?thesis by (intro conjI)
qed

text \<open>
  Claim C5 as stated fails: the underscore is not alphanumeric, and \<open>normalize_title\<close>
  keeps it.
\<close>

theorem normalize_title_keeps_underscore:
  "normalize_title (Some ''a_b'') = ''a_b'' \<and> \<not> is_alnum (CHR ''_'') \<and> CHR ''_'' \<noteq> CHR '' ''"
  by code_simp

text \<open>
  Claim C7. Normalization is idempotent: normalizing a normalized title gives it back.
\<close>

theorem normalize_title_idempotent:
  "normalize_title (Some (normalize_title x)) = normalize_title x"
proof (cases "normalize_title x = []")
  case True
  then show ?thesis by (simp add: normalize_title_def)
next
  case False
  let ?y = "normalize_title x"
  have 1: "lower ?y = ?y"
    unfolding lower_def using normalize_chars[of _ x] by (simp add: map_idI)
  have 2: "sub_special ?y = ?y"
    unfolding sub_special_def using normalize_chars[of _ x] is_space_space
    by (intro map_idI) auto
  have 3: "sub_spaces ?y = ?y"
    by (rule sub_spaces_fixed) (rule normalize_single_spaced)
  have 4: "strip ?y = ?y"
    by (rule strip_fixed) (use normalize_ends[of x] in auto)
  show ?thesis using False by (simp add: normalize_title_def[of "Some ?y"] 1 2 3 4)
qed

section \<open>Properties of the title extractor\<close>

text \<open>
  Claim C9, as the code has it. When the page text is non-empty, no candidate line survives
  and the text has at most 100 characters, \<open>extract_title_from_pdf\<close> returns the empty
  string, the join of no lines, which both callers treat like \<open>None\<close> by their test
  \<open>if title\<close>.
\<close>

theorem extract_title_empty_string:
  "select_page_text pages = Some text \<Longrightarrow> text \<noteq> [] \<Longrightarrow>
   title_loop 0 (take 10 (stripped_lines text)) [] = [] \<Longrightarrow> length text \<le> 100 \<Longrightarrow>
   extract_title_from_pdf (Pages pages) = Some []"
  by (simp add: extract_title_from_pdf_def title_of_text_def)

theorem extract_title_empty_string_witness:
  "select_page_text [PageText ''Vol. 3''] = Some ''Vol. 3'' \<and> ''Vol. 3'' \<noteq> []
   \<and> title_loop 0 (take 10 (stripped_lines ''Vol. 3'')) [] = [] \<and> length ''Vol. 3'' \<le> 100
   \<and> extract_title_from_pdf (Pages [PageText ''Vol. 3'']) = Some []"
proof -
  have 1: "select_page_text [PageText ''Vol. 3''] = Some ''Vol. 3''" by code_simp
  have 2: "title_loop 0 (take 10 (stripped_lines ''Vol. 3'')) [] = []" by code_simp
  have 3: "''Vol. 3'' \<noteq> []" "length ''Vol. 3'' \<le> 100" by simp_all
  from extract_title_empty_string[OF 1 3(1) 2 3(2)] 1 2 3 show ?thesis by simp
qed

text \<open>
  Claim C9 as stated fails: for the page text \<open>short\<close> the result is a string value, the
  empty string, and not \<open>None\<close>.
\<close>

theorem extract_title_not_absent:
  "''short'' \<noteq> [] \<and> title_loop 0 (take 10 (stripped_lines ''short'')) [] = []
   \<and> length ''short'' \<le> 100
   \<and> extract_title_from_pdf (Pages [PageText ''short'']) = Some []
   \<and> extract_title_from_pdf (Pages [PageText ''short'']) \<noteq> None"
  by code_simp

lemma title_loop_Cons:
  "title_loop i (line # rest) acc =
     (if survives line then (if 2 \<le> i then acc @ [line] else title_loop (Suc i) rest (acc @ [line]))
      else title_loop (Suc i) rest acc)"
  by (auto simp: survives_def Let_def)

lemma title_loop_no_stop:
  "(\<forall>m<length lines. 2 \<le> i + m \<longrightarrow> \<not> survives (lines ! m)) \<Longrightarrow>
   title_loop i lines acc = acc @ filter survives lines"
proof (induction lines arbitrary: i acc)
  case Nil
  then show ?case by simp
next
  case (Cons line rest)
  have r: "\<forall>m<length rest. 2 \<le> Suc i + m \<longrightarrow> \<not> survives (rest ! m)"
  proof (intro allI impI)
    fix m assume "m < length rest" "2 \<le> Suc i + m"
    then have "Suc m < length (line # rest)" "2 \<le> i + Suc m" by simp_all
    with Cons.prems have "\<not> survives ((line # rest) ! Suc m)" by blast
    then show "\<not> survives (rest ! m)" by simp
  qed
  have h: "2 \<le> i \<longrightarrow> \<not> survives line" using Cons.prems by force
  show ?case
    unfolding title_loop_Cons using h by (simp add: Cons.IH[OF r])
qed

lemma title_loop_stop:
  "n < length lines \<Longrightarrow> 2 \<le> i + n \<Longrightarrow> survives (lines ! n) \<Longrightarrow>
   (\<forall>m<n. 2 \<le> i + m \<longrightarrow> \<not> survives (lines ! m)) \<Longrightarrow>
   title_loop i lines acc = acc @ filter survives (take (Suc n) lines)"
proof (induction lines arbitrary: i n acc)
  case Nil
  then show ?case by simp
next
  case (Cons line rest)
  show ?case
  proof (cases n)
    case 0
    with Cons.prems show ?thesis unfolding title_loop_Cons by simp
  next
    case (Suc n')
    have h: "2 \<le> i \<longrightarrow> \<not> survives line" using Cons.prems(4) Suc by force
    have r: "\<forall>m<n'. 2 \<le> Suc i + m \<longrightarrow> \<not> survives (rest ! m)"
    proof (intro allI impI)
      fix m assume "m < n'" "2 \<le> Suc i + m"
      then have "Suc m < n" "2 \<le> i + Suc m" using Suc by simp_all
      with Cons.prems(4) have "\<not> survives ((line # rest) ! Suc m)" by blast
      then show "\<not> survives (rest ! m)" by simp
    qed
    have ih: "title_loop (Suc i) rest acc' = acc' @ filter survives (take (Suc n') rest)" for acc'
      by (rule Cons.IH[OF _ _ _ r]) (use Cons.prems Suc in auto)
    show ?thesis
      unfolding title_loop_Cons using h Suc by (simp add: ih)
  qed
qed

text \<open>
  Claim C4, as the code has it. The test for stopping stands after the three \<open>continue\<close>
  statements, so it is evaluated only for a line that survives the discard rules and has
  just been appended. The first three lines are always inspected; the scan stops right after
  the first surviving line of index 2 or more, which is the last candidate, and a discarded
  line never stops it. When no line of index 2 or more survives, all the lines given (at most
  10) are scanned.
\<close>

theorem title_loop_stop_rule:
  "(n < length lines \<and> 2 \<le> n \<and> survives (lines ! n)
      \<and> (\<forall>m. 2 \<le> m \<and> m < n \<longrightarrow> \<not> survives (lines ! m))
    \<longrightarrow> title_loop 0 lines [] = filter survives (take (Suc n) lines))
   \<and> ((\<forall>m. 2 \<le> m \<and> m < length lines \<longrightarrow> \<not> survives (lines ! m))
    \<longrightarrow> title_loop 0 lines [] = filter survives lines)"
proof (intro conjI impI)
  assume a: "n < length lines \<and> 2 \<le> n \<and> survives (lines ! n)
      \<and> (\<forall>m. 2 \<le> m \<and> m < n \<longrightarrow> \<not> survives (lines ! m))"
  then have "\<forall>m<n. 2 \<le> 0 + m \<longrightarrow> \<not> survives (lines ! m)" by simp
  with a show "title_loop 0 lines [] = filter survives (take (Suc n) lines)"
    using title_loop_stop[of n lines 0 "[]"] by simp
next
  assume "\<forall>m. 2 \<le> m \<and> m < length lines \<longrightarrow> \<not> survives (lines ! m)"
  then have "\<forall>m<length lines. 2 \<le> 0 + m \<longrightarrow> \<not> survives (lines ! m)" by simp
  then show "title_loop 0 lines [] = filter survives lines"
    using title_loop_no_stop[of lines 0 "[]"] by simp
qed

lemma example_survives:
  "survives ''Widget Detection'' \<and> \<not> survives ''Jane Doe'' \<and> \<not> survives ''MIT''
   \<and> \<not> survives ''Abstract'' \<and> survives ''We propose it.''"
  by code_simp

theorem title_loop_stop_rule_witness:
  "title_loop 0 [''Widget Detection'', ''Jane Doe'', ''MIT'', ''Abstract'', ''We propose it.''] []
     = [''Widget Detection'', ''We propose it.'']
   \<and> title_loop 0 [''Widget Detection'', ''Jane Doe'', ''MIT''] [] = [''Widget Detection'']"
proof -
  let ?l = "[''Widget Detection'', ''Jane Doe'', ''MIT'', ''Abstract'', ''We propose it.'']"
  let ?s = "[''Widget Detection'', ''Jane Doe'', ''MIT'']"
  have h1: "4 < length ?l \<and> 2 \<le> (4::nat) \<and> survives (?l ! 4)
      \<and> (\<forall>m. 2 \<le> m \<and> m < 4 \<longrightarrow> \<not> survives (?l ! m))"
  proof (intro conjI allI impI)
    fix m :: nat assume "2 \<le> m \<and> m < 4"
    then have "m = 2 \<or> m = 3" by arith
    then show "\<not> survives (?l ! m)" using example_survives by auto
  qed (use example_survives in simp_all)
  have h2: "\<forall>m. 2 \<le> m \<and> m < length ?s \<longrightarrow> \<not> survives (?s ! m)"
  proof (intro allI impI)
    fix m :: nat assume "2 \<le> m \<and> m < length ?s"
    then have "m = 2" by simp
    then show "\<not> survives (?s ! m)" using example_survives by simp
  qed
  from title_loop_stop_rule[of 4 ?l] h1
  have 1: "title_loop 0 ?l [] = filter survives (take (Suc 4) ?l)" by blast
  from title_loop_stop_rule[of 0 ?s] h2
  have 2: "title_loop 0 ?s [] = filter survives ?s" by blast
  show ?thesis
    unfolding 1 2 using example_survives by simp
qed

text \<open>
  Claim C4 as stated fails. On the page below the first line is kept and the next three are
  discarded; a scan that stops once the third line is reached and a candidate exists, as
  \<^const>\<open>title_loop_claimed\<close> does, returns the first line alone, and the code goes on to the
  fifth line and appends it.
\<close>

theorem title_loop_scans_past_discarded_line:
  "title_loop 0 [''Widget Detection'', ''Jane Doe'', ''MIT'', ''Abstract'', ''We propose it.''] []
     = [''Widget Detection'', ''We propose it.'']
   \<and> title_loop_claimed 0
       [''Widget Detection'', ''Jane Doe'', ''MIT'', ''Abstract'', ''We propose it.''] []
     = [''Widget Detection'']
   \<and> extract_title_from_pdf (Pages [PageText
       (''Widget Detection'' @ newline # ''Jane Doe'' @ newline # ''MIT'' @ newline
        # ''Abstract'' @ newline # ''We propose it.'')])
     = Some ''Widget Detection We propose it.''"
proof -
  have 1: "title_loop 0
      [''Widget Detection'', ''Jane Doe'', ''MIT'', ''Abstract'', ''We propose it.''] []
     = [''Widget Detection'', ''We propose it.'']"
    by code_simp
  have 2: "title_loop_claimed 0
       [''Widget Detection'', ''Jane Doe'', ''MIT'', ''Abstract'', ''We propose it.''] []
     = [''Widget Detection'']"
    by code_simp
  have 3: "stripped_lines (''Widget Detection'' @ newline # ''Jane Doe'' @ newline # ''MIT''
        @ newline # ''Abstract'' @ newline # ''We propose it.'')
     = [''Widget Detection'', ''Jane Doe'', ''MIT'', ''Abstract'', ''We propose it.'']"
    by code_simp
  let ?t = "''Widget Detection'' @ newline # ''Jane Doe'' @ newline # ''MIT'' @ newline
        # ''Abstract'' @ newline # ''We propose it.''"
  have 4: "extract_title_from_pdf (Pages [PageText ?t]) = title_of_text ?t"
    by (simp add: extract_title_from_pdf_def select_page_text_def)
  have 5: "title_of_text ?t = Some ''Widget Detection We propose it.''"
    unfolding title_of_text_def Let_def 3
    by (simp add: 1 del: title_loop.simps)
  show ?thesis
    unfolding 4 5 using 1 2 by simp
qed

section \<open>Properties of the matcher\<close>

lemma compare_loop_eq:
  "compare_loop items pb tb nb t acc =
     acc @ [\<lparr>path_a = pa, path_b = pb, title_a = original info, title_b = tb,
              similarity = ratio (normalized info) nb\<rparr>.
            (pa, info) \<leftarrow> items, t \<le> ratio (normalized info) nb]"
  by (induction items arbitrary: acc) (auto simp: Let_def)

lemma match_loop_eq:
  "match_loop idx files t acc =
     acc @ [\<lparr>path_a = pa, path_b = rel_path fb, title_a = original info, title_b = tb,
              similarity = ratio (normalized info) (normalize_title (Some tb))\<rparr>.
            fb \<leftarrow> files, is_file fb \<and> lower (suffix (rel_path fb)) = ''.pdf'',
            tb \<leftarrow> (case extract_title_from_pdf (content fb) of None \<Rightarrow> [] | Some tb \<Rightarrow> [tb]),
            tb \<noteq> [],
            (pa, info) \<leftarrow> idx, t \<le> ratio (normalized info) (normalize_title (Some tb))]"
proof (induction files arbitrary: acc)
  case Nil
  then show ?case by simp
next
  case (Cons f files)
  show ?case
    by (simp add: Cons.IH compare_loop_eq split: option.splits)
qed

lemma similar_papers_of_eq:
  "similar_papers_of files_a files_b t =
     [\<lparr>path_a = pa, path_b = rel_path fb, title_a = original info, title_b = tb,
        similarity = ratio (normalized info) (normalize_title (Some tb))\<rparr>.
      fb \<leftarrow> files_b, is_file fb \<and> lower (suffix (rel_path fb)) = ''.pdf'',
      tb \<leftarrow> (case extract_title_from_pdf (content fb) of None \<Rightarrow> [] | Some tb \<Rightarrow> [tb]),
      tb \<noteq> [],
      (pa, info) \<leftarrow> index_loop files_a [], t \<le> ratio (normalized info) (normalize_title (Some tb))]"
  by (simp add: similar_papers_of_def match_loop_eq)

lemma set_sort_reverse: "set (sort_reverse key xs) = set xs"
  by (simp add: sort_reverse_def)

lemma sort_reverse_sorted:
  "sorted_wrt (\<lambda>x y. key y \<le> key x) (sort_reverse key xs)"
proof -
  have "sorted (map key (sort_key key (rev xs)))" by (rule sorted_sort_key)
  then have "sorted_wrt (\<lambda>x y. key x \<le> key y) (sort_key key (rev xs))"
    by (simp add: sorted_map)
  then show ?thesis
    by (simp add: sort_reverse_def sorted_wrt_rev)
qed

lemma sort_reverse_stable:
  "filter (\<lambda>x. key x = k) (sort_reverse key xs) = filter (\<lambda>x. key x = k) xs"
  by (simp add: sort_reverse_def rev_filter[symmetric] sort_key_stable)

lemma set_similar_papers_of:
  "m \<in> set (similar_papers_of files_a files_b t) \<longleftrightarrow>
     (\<exists>fb \<in> set files_b. \<exists>(pa, info) \<in> set (index_loop files_a []). \<exists>tb.
        is_file fb \<and> lower (suffix (rel_path fb)) = ''.pdf''
         \<and> extract_title_from_pdf (content fb) = Some tb \<and> tb \<noteq> []
        \<and> t \<le> ratio (normalized info) (normalize_title (Some tb))
        \<and> m = \<lparr>path_a = pa, path_b = rel_path fb, title_a = original info, title_b = tb,
               similarity = ratio (normalized info) (normalize_title (Some tb))\<rparr>)"
proof -
  have c: "(case x of None \<Rightarrow> [] | Some tb \<Rightarrow> [tb]) = (if x = None then [] else [the x])"
    for x :: "string option"
    by (cases x) auto
  show ?thesis
    unfolding similar_papers_of_eq c
    by (fastforce split: if_splits)
qed





text \<open>
  Claim C6. For thresholds \<open>t1 < t2\<close> and the same files, the pairs of paths reported at
  \<open>t2\<close> are among those reported at \<open>t1\<close>.
\<close>

theorem threshold_monotone:
  "t1 < t2 \<Longrightarrow>
   (\<lambda>m. (path_a m, path_b m)) ` set (find_similar_titles files_a files_b t2)
     \<subseteq> (\<lambda>m. (path_a m, path_b m)) ` set (find_similar_titles files_a files_b t1)"
proof -
  assume lt: "t1 < t2"
  have "set (similar_papers_of files_a files_b t2) \<subseteq> set (similar_papers_of files_a files_b t1)"
  proof
    fix m assume "m \<in> set (similar_papers_of files_a files_b t2)"
    then obtain fb pa info tb where
      "fb \<in> set files_b" "(pa, info) \<in> set (index_loop files_a [])"
      "is_file fb \<and> lower (suffix (rel_path fb)) = ''.pdf''"
      "extract_title_from_pdf (content fb) = Some tb" "tb \<noteq> []"
      "t2 \<le> ratio (normalized info) (normalize_title (Some tb))"
      "m = \<lparr>path_a = pa, path_b = rel_path fb, title_a = original info, title_b = tb,
             similarity = ratio (normalized info) (normalize_title (Some tb))\<rparr>"
      unfolding set_similar_papers_of by blast
    moreover from this lt have "t1 \<le> ratio (normalized info) (normalize_title (Some tb))" by simp
    ultimately show "m \<in> set (similar_papers_of files_a files_b t1)"
      unfolding set_similar_papers_of by blast
  qed
  then show ?thesis
    by (auto simp: find_similar_titles_def set_sort_reverse)
qed

theorem threshold_monotone_witness:
  "(1 / 2 :: rat) < 4 / 5 \<and>
   (\<lambda>m. (path_a m, path_b m)) ` set (find_similar_titles
       [\<lparr>rel_path = ''a.pdf'', is_file = True, content = Pages [PageText ''ab--------'']\<rparr>]
       [\<lparr>rel_path = ''b.pdf'', is_file = True, content = Pages [PageText ''abc-------'']\<rparr>]
       (4 / 5))
     \<subseteq> (\<lambda>m. (path_a m, path_b m)) ` set (find_similar_titles
       [\<lparr>rel_path = ''a.pdf'', is_file = True, content = Pages [PageText ''ab--------'']\<rparr>]
       [\<lparr>rel_path = ''b.pdf'', is_file = True, content = Pages [PageText ''abc-------'']\<rparr>]
       (1 / 2))"
proof -
  have h: "(1 / 2 :: rat) < 4 / 5" by simp
  from threshold_monotone[OF h] h show ?thesis by blast
qed

text \<open>
  Claim C8. The report is sorted by similarity in descending order: a candidate's similarity
  is at least that of every candidate after it.
\<close>

theorem report_sorted_descending:
  "i < j \<Longrightarrow> j < length (find_similar_titles files_a files_b t) \<Longrightarrow>
   similarity (find_similar_titles files_a files_b t ! j)
     \<le> similarity (find_similar_titles files_a files_b t ! i)"
  using sort_reverse_sorted[of similarity "similar_papers_of files_a files_b t"]
  by (simp add: find_similar_titles_def sorted_wrt_iff_nth_less)

lemma example_index:
  "index_loop
     [\<lparr>rel_path = ''a1.pdf'', is_file = True, content = Pages [PageText ''abc-------'']\<rparr>,
      \<lparr>rel_path = ''a2.pdf'', is_file = True, content = Pages [PageText ''ab--------'']\<rparr>] []
   = [(''a1.pdf'', \<lparr>original = ''abc-------'', normalized = ''abc''\<rparr>),
      (''a2.pdf'', \<lparr>original = ''ab--------'', normalized = ''ab''\<rparr>)]"
  by code_simp

lemma example_suffixes:
  "lower (suffix ''a.pdf'') = ''.pdf'' \<and> lower (suffix ''b.pdf'') = ''.pdf''
   \<and> lower (suffix ''a2.pdf'') = ''.pdf''"
  by code_simp


text \<open>A file named \<open>.pdf\<close> has no suffix, and a file named \<open>dir/b.PDF\<close> has the suffix
  \<open>.PDF\<close>, which the test lower-cases.\<close>

lemma example_suffix_values:
  "suffix ''.pdf'' = [] \<and> suffix ''dir/.pdf'' = [] \<and> suffix ''dir/b.PDF'' = ''.PDF''
   \<and> lower (suffix ''dir/b.PDF'') = ''.pdf'' \<and> suffix ''b.pdf.'' = []"
  by code_simp

lemma example_title_b:
  "extract_title_from_pdf (Pages [PageText ''ab========'']) = Some ''ab========''
   \<and> normalize_title (Some ''ab========'') = ''ab''"
  by code_simp

lemma example_ratios: "ratio ''abc'' ''ab'' = 4 / 5 \<and> ratio ''ab'' ''ab'' = 1"
  by code_simp

lemma example_report:
  "find_similar_titles
       [\<lparr>rel_path = ''a1.pdf'', is_file = True, content = Pages [PageText ''abc-------'']\<rparr>,
        \<lparr>rel_path = ''a2.pdf'', is_file = True, content = Pages [PageText ''ab--------'']\<rparr>]
       [\<lparr>rel_path = ''b.pdf'', is_file = True, content = Pages [PageText ''ab========'']\<rparr>]
       (1 / 2)
   = [\<lparr>path_a = ''a2.pdf'', path_b = ''b.pdf'', title_a = ''ab--------'',
        title_b = ''ab========'', similarity = 1\<rparr>,
      \<lparr>path_a = ''a1.pdf'', path_b = ''b.pdf'', title_a = ''abc-------'',
        title_b = ''ab========'', similarity = 4 / 5\<rparr>]"
  unfolding find_similar_titles_def similar_papers_of_def example_index
  by (simp add: example_title_b example_ratios example_suffixes sort_reverse_def)

theorem report_sorted_descending_witness:
  "(0::nat) < 1
   \<and> 1 < length (find_similar_titles
       [\<lparr>rel_path = ''a1.pdf'', is_file = True, content = Pages [PageText ''abc-------'']\<rparr>,
        \<lparr>rel_path = ''a2.pdf'', is_file = True, content = Pages [PageText ''ab--------'']\<rparr>]
       [\<lparr>rel_path = ''b.pdf'', is_file = True, content = Pages [PageText ''ab========'']\<rparr>]
       (1 / 2))
   \<and> similarity (find_similar_titles
       [\<lparr>rel_path = ''a1.pdf'', is_file = True, content = Pages [PageText ''abc-------'']\<rparr>,
        \<lparr>rel_path = ''a2.pdf'', is_file = True, content = Pages [PageText ''ab--------'']\<rparr>]
       [\<lparr>rel_path = ''b.pdf'', is_file = True, content = Pages [PageText ''ab========'']\<rparr>]
       (1 / 2) ! 1)
     \<le> similarity (find_similar_titles
       [\<lparr>rel_path = ''a1.pdf'', is_file = True, content = Pages [PageText ''abc-------'']\<rparr>,
        \<lparr>rel_path = ''a2.pdf'', is_file = True, content = Pages [PageText ''ab--------'']\<rparr>]
       [\<lparr>rel_path = ''b.pdf'', is_file = True, content = Pages [PageText ''ab========'']\<rparr>]
       (1 / 2) ! 0)"
proof -
  let ?r = "find_similar_titles
       [\<lparr>rel_path = ''a1.pdf'', is_file = True, content = Pages [PageText ''abc-------'']\<rparr>,
        \<lparr>rel_path = ''a2.pdf'', is_file = True, content = Pages [PageText ''ab--------'']\<rparr>]
       [\<lparr>rel_path = ''b.pdf'', is_file = True, content = Pages [PageText ''ab========'']\<rparr>]
       (1 / 2)"
  have l: "1 < length ?r" by (simp add: example_report)
  have z: "(0::nat) < 1" by simp
  from report_sorted_descending[OF z l] l z show ?thesis by blast
qed

text \<open>
  Claim C10. Candidates of equal similarity keep their discovery order: the files of
  collection B in the order of enumeration and, for each, the entries of the index of
  collection A in its order.
\<close>

theorem ties_in_discovery_order:
  "filter (\<lambda>m. similarity m = s) (find_similar_titles files_a files_b t) =
   filter (\<lambda>m. similarity m = s)
     [\<lparr>path_a = pa, path_b = rel_path fb, title_a = original info, title_b = tb,
        similarity = ratio (normalized info) (normalize_title (Some tb))\<rparr>.
      fb \<leftarrow> files_b, is_file fb \<and> lower (suffix (rel_path fb)) = ''.pdf'',
      tb \<leftarrow> (case extract_title_from_pdf (content fb) of None \<Rightarrow> [] | Some tb \<Rightarrow> [tb]),
      tb \<noteq> [],
      (pa, info) \<leftarrow> index_loop files_a [],
      t \<le> ratio (normalized info) (normalize_title (Some tb))]"
  by (simp only: find_similar_titles_def sort_reverse_stable similar_papers_of_eq)




section \<open>Properties of the sequence matcher\<close>

subsection \<open>The keys of \<open>b2j\<close>\<close>

lemma b2j_all_snoc:
  "b2j_all (xs @ [x]) =
     (b2j_all xs)(x \<mapsto> (case b2j_all xs x of None \<Rightarrow> [] | Some indices \<Rightarrow> indices) @ [length xs])"
  by (simp add: b2j_all_def enumerate_append_eq)

lemma b2j_all_eq:
  "b2j_all b c = (if c \<in> set b then Some [j \<leftarrow> [0..<length b]. b ! j = c] else None)"
proof (induction b arbitrary: c rule: rev_induct)
  case Nil
  then show ?case by (simp add: b2j_all_def)
next
  case (snoc x xs)
  have f: "[j \<leftarrow> [0..<length xs]. (xs @ [x]) ! j = c] = [j \<leftarrow> [0..<length xs]. xs ! j = c]"
    by (rule filter_cong) (auto simp: nth_append)
  have e: "[j \<leftarrow> [0..<length xs]. xs ! j = x] = []" if "x \<notin> set xs"
    using that by (auto simp: filter_empty_conv)
  show ?case
    by (auto simp: b2j_all_snoc snoc.IH f e)
qed

lemma chain_b_Some:
  "chain_b b c = Some js \<Longrightarrow> c \<in> set b \<and> js = [j \<leftarrow> [0..<length b]. b ! j = c]"
  by (auto simp: chain_b_def Let_def b2j_all_eq split: if_splits option.splits)

lemma chain_b_indices: "chain_b b c = Some js \<Longrightarrow> j \<in> set js \<Longrightarrow> j < length b \<and> b ! j = c"
  by (drule chain_b_Some) auto

lemma chain_b_absent: "c \<notin> set b \<Longrightarrow> chain_b b c = None"
  by (auto simp: chain_b_def Let_def b2j_all_eq)

lemma run_len_0: "run_len s 0 = 0"
  by (simp add: run_len_def)

lemma run_len_Suc:
  "m < length s \<Longrightarrow>
     run_len s (Suc m) = (if chain_b s (s ! m) \<noteq> None then run_len s m + 1 else 0)"
  by (simp add: run_len_def take_Suc_conv_app_nth)


subsection \<open>The longest block lies in its range and matches\<close>

lemma j2lenget_cases:
  "(j2lenget j2len j = 0) \<or> (0 < j \<and> j2len (j - 1) = Some (j2lenget j2len j))"
  by (auto simp: j2lenget_def split: option.splits)

lemma inner_loop_block:
  assumes J: "\<forall>j v. j2len j = Some v \<longrightarrow>
        v \<le> i - alo \<and> v \<le> Suc j - blo \<and> (\<forall>t<v. a ! (i - 1 - t) = b ! (j - t))"
    and i: "alo \<le> i"
    and js: "\<forall>j\<in>set js. a ! i = b ! j"
    and N: "\<forall>j v. new j = Some v \<longrightarrow>
        v \<le> Suc i - alo \<and> v \<le> Suc j - blo \<and> (\<forall>t<v. a ! (i - t) = b ! (j - t))"
    and B: "alo \<le> bi \<and> bi + bs \<le> Suc i \<and> blo \<le> bj \<and> bj + bs \<le> bhi
        \<and> (\<forall>t<bs. a ! (bi + t) = b ! (bj + t))"
    and res: "inner_loop j2len blo bhi i js (new, bi, bj, bs) = (new', bi', bj', bs')"
  shows "(\<forall>j v. new' j = Some v \<longrightarrow>
        v \<le> Suc i - alo \<and> v \<le> Suc j - blo \<and> (\<forall>t<v. a ! (i - t) = b ! (j - t)))
     \<and> alo \<le> bi' \<and> bi' + bs' \<le> Suc i \<and> blo \<le> bj' \<and> bj' + bs' \<le> bhi
     \<and> (\<forall>t<bs'. a ! (bi' + t) = b ! (bj' + t))"
  using js N B res
proof (induction js arbitrary: new bi bj bs)
  case Nil
  then show ?case by simp
next
  case (Cons j js)
  let ?g = "j2lenget j2len j"
  let ?k = "?g + 1"
  have js': "\<forall>j\<in>set js. a ! i = b ! j" using Cons.prems(1) by (meson list.set_intros(2))
  show ?case
  proof (cases "j < blo")
    case True
    with Cons.prems(4) have "inner_loop j2len blo bhi i js (new, bi, bj, bs) = (new', bi', bj', bs')"
      by simp
    from Cons.IH[OF js' Cons.prems(2,3) this] show ?thesis .
  next
    case nb: False
    show ?thesis
    proof (cases "j \<ge> bhi")
      case True
      with nb Cons.prems(4) have "new' = new" "bi' = bi" "bj' = bj" "bs' = bs" by simp_all
      with Cons.prems(2,3) show ?thesis by simp
    next
      case nh: False
      have g1: "?g \<le> i - alo" and g2: "?g \<le> j - blo"
        and g3: "\<forall>t<?g. a ! (i - 1 - t) = b ! (j - 1 - t)"
        using j2lenget_cases[of j2len j] J by (auto, fastforce+)
      have m: "\<forall>t<?k. a ! (i - t) = b ! (j - t)"
      proof (intro allI impI)
        fix t assume t: "t < ?k"
        show "a ! (i - t) = b ! (j - t)"
        proof (cases t)
          case 0
          then show ?thesis using Cons.prems(1) by simp
        next
          case (Suc t')
          with t have "t' < ?g" by simp
          with g3 have "a ! (i - 1 - t') = b ! (j - 1 - t')" by blast
          with Suc show ?thesis by simp
        qed
      qed
      have k1: "?k \<le> Suc i - alo" using g1 i by arith
      have k2: "?k \<le> Suc j - blo" using g2 nb by arith
      have N': "\<forall>j' v. (new(j \<mapsto> ?k)) j' = Some v \<longrightarrow>
          v \<le> Suc i - alo \<and> v \<le> Suc j' - blo \<and> (\<forall>t<v. a ! (i - t) = b ! (j' - t))"
        using Cons.prems(2) k1 k2 m by auto
      show ?thesis
      proof (cases "?k > bs")
        case True
        have r: "inner_loop j2len blo bhi i js (new(j \<mapsto> ?k), i + 1 - ?k, j + 1 - ?k, ?k)
            = (new', bi', bj', bs')"
          using Cons.prems(4) nb nh True by (simp add: Let_def)
        have bm: "\<forall>t<?k. a ! (i + 1 - ?k + t) = b ! (j + 1 - ?k + t)"
        proof (intro allI impI)
          fix t assume t: "t < ?k"
          then have "?k - 1 - t < ?k" by arith
          with m have m': "a ! (i - (?k - 1 - t)) = b ! (j - (?k - 1 - t))" by blast
          have e1: "i - (?k - 1 - t) = i + 1 - ?k + t" using t k1 i by arith
          have e2: "j - (?k - 1 - t) = j + 1 - ?k + t" using t k2 nb by arith
          from m' show "a ! (i + 1 - ?k + t) = b ! (j + 1 - ?k + t)" by (simp only: e1 e2)
        qed
        have B': "alo \<le> i + 1 - ?k \<and> i + 1 - ?k + ?k \<le> Suc i \<and> blo \<le> j + 1 - ?k
            \<and> j + 1 - ?k + ?k \<le> bhi \<and> (\<forall>t<?k. a ! (i + 1 - ?k + t) = b ! (j + 1 - ?k + t))"
        proof -
          have "alo \<le> i + 1 - ?k" using k1 i by arith
          moreover have "i + 1 - ?k + ?k \<le> Suc i" using k1 i by arith
          moreover have "blo \<le> j + 1 - ?k" using k2 nb by arith
          moreover have "j + 1 - ?k + ?k \<le> bhi" using k2 nb nh by arith
          ultimately show ?thesis using bm by blast
        qed
        from Cons.IH[OF js' N' B' r] show ?thesis .
      next
        case False
        have r: "inner_loop j2len blo bhi i js (new(j \<mapsto> ?k), bi, bj, bs) = (new', bi', bj', bs')"
          using Cons.prems(4) nb nh False by (simp add: Let_def)
        from Cons.IH[OF js' N' Cons.prems(3) r] show ?thesis .
      qed
    qed
  qed
qed

lemma outer_loop_block:
  assumes J: "\<forall>j v. j2len j = Some v \<longrightarrow>
        v \<le> i - alo \<and> v \<le> Suc j - blo \<and> (\<forall>t<v. a ! (i - 1 - t) = b ! (j - t))"
    and i: "alo \<le> i" "i \<le> ahi"
    and c: "\<forall>c js. b2j c = Some js \<longrightarrow> (\<forall>j\<in>set js. b ! j = c)"
    and B: "alo \<le> bi \<and> bi + bs \<le> i \<and> blo \<le> bj \<and> bj + bs \<le> bhi
        \<and> (\<forall>t<bs. a ! (bi + t) = b ! (bj + t))"
    and res: "outer_loop a b2j blo bhi [i..<ahi] (j2len, bi, bj, bs) = (bi', bj', bs')"
  shows "alo \<le> bi' \<and> bi' + bs' \<le> ahi \<and> blo \<le> bj' \<and> bj' + bs' \<le> bhi
     \<and> (\<forall>t<bs'. a ! (bi' + t) = b ! (bj' + t))"
  using J i B res
proof (induction "ahi - i" arbitrary: i j2len bi bj bs)
  case 0
  then show ?case by simp
next
  case (Suc n)
  then have lt: "i < ahi" by simp
  let ?js = "case b2j (a ! i) of None \<Rightarrow> [] | Some js \<Rightarrow> js"
  obtain new ci cj cs where st:
    "inner_loop j2len blo bhi i ?js (Map.empty, bi, bj, bs) = (new, ci, cj, cs)"
    by (metis prod_cases4)
  have js: "\<forall>j\<in>set ?js. a ! i = b ! j"
  proof (cases "b2j (a ! i)")
    case None
    then show ?thesis by simp
  next
    case (Some js)
    with c show ?thesis by simp
  qed
  have B0: "alo \<le> bi \<and> bi + bs \<le> Suc i \<and> blo \<le> bj \<and> bj + bs \<le> bhi
        \<and> (\<forall>t<bs. a ! (bi + t) = b ! (bj + t))"
    using Suc.prems(4) by auto
  have inv: "(\<forall>j v. new j = Some v \<longrightarrow>
        v \<le> Suc i - alo \<and> v \<le> Suc j - blo \<and> (\<forall>t<v. a ! (i - t) = b ! (j - t)))
     \<and> alo \<le> ci \<and> ci + cs \<le> Suc i \<and> blo \<le> cj \<and> cj + cs \<le> bhi
     \<and> (\<forall>t<cs. a ! (ci + t) = b ! (cj + t))"
    by (rule inner_loop_block[OF Suc.prems(1) Suc.prems(2) js _ B0 st]) simp
  have r: "outer_loop a b2j blo bhi [Suc i..<ahi] (new, ci, cj, cs) = (bi', bj', bs')"
    using Suc.prems(5) lt st by (simp add: upt_conv_Cons)
  have J': "\<forall>j v. new j = Some v \<longrightarrow>
        v \<le> Suc i - alo \<and> v \<le> Suc j - blo \<and> (\<forall>t<v. a ! (Suc i - 1 - t) = b ! (j - t))"
    using inv by simp
  have n: "n = ahi - Suc i" using Suc.hyps(2) by simp
  show ?case
    by (rule Suc.hyps(1)[OF n J' _ _ _ r]) (use inv Suc.prems(2) lt in auto)
qed

lemma extend_left_block:
  "extend_left P a b alo blo (bi, bj, bs) = (bi', bj', bs') \<Longrightarrow>
   alo \<le> bi \<Longrightarrow> blo \<le> bj \<Longrightarrow> (\<forall>t<bs. a ! (bi + t) = b ! (bj + t)) \<Longrightarrow>
   alo \<le> bi' \<and> blo \<le> bj' \<and> bi' + bs' = bi + bs \<and> bj' + bs' = bj + bs
     \<and> (\<forall>t<bs'. a ! (bi' + t) = b ! (bj' + t))"
proof (induction P a b alo blo "(bi, bj, bs)" arbitrary: bi bj bs rule: extend_left.induct)
  case (1 P a b alo blo besti bestj bestsize)
  show ?case
  proof (cases "besti > alo \<and> bestj > blo \<and> P (b ! (bestj - 1))
      \<and> a ! (besti - 1) = b ! (bestj - 1)")
    case True
    then have r: "extend_left P a b alo blo (besti - 1, bestj - 1, bestsize + 1) = (bi', bj', bs')"
      using "1.prems"(1) by simp
    have m: "\<forall>t<bestsize + 1. a ! (besti - 1 + t) = b ! (bestj - 1 + t)"
    proof (intro allI impI)
      fix t assume "t < bestsize + 1"
      then show "a ! (besti - 1 + t) = b ! (bestj - 1 + t)"
        using True "1.prems"(4) by (cases t) auto
    qed
    from "1.hyps"[OF True r _ _ m] True show ?thesis by auto
  next
    case False
    then show ?thesis using "1.prems" by auto
  qed
qed

lemma extend_right_block:
  "extend_right P a b ahi bhi (bi, bj, bs) = (bi', bj', bs') \<Longrightarrow>
   bi + bs \<le> ahi \<Longrightarrow> bj + bs \<le> bhi \<Longrightarrow> (\<forall>t<bs. a ! (bi + t) = b ! (bj + t)) \<Longrightarrow>
   bi' = bi \<and> bj' = bj \<and> bi' + bs' \<le> ahi \<and> bj' + bs' \<le> bhi
     \<and> (\<forall>t<bs'. a ! (bi' + t) = b ! (bj' + t))"
proof (induction P a b ahi bhi "(bi, bj, bs)" arbitrary: bi bj bs rule: extend_right.induct)
  case (1 P a b ahi bhi besti bestj bestsize)
  show ?case
  proof (cases "besti + bestsize < ahi \<and> bestj + bestsize < bhi \<and> P (b ! (bestj + bestsize))
         \<and> a ! (besti + bestsize) = b ! (bestj + bestsize)")
    case True
    then have r: "extend_right P a b ahi bhi (besti, bestj, bestsize + 1) = (bi', bj', bs')"
      using "1.prems"(1) by simp
    have m: "\<forall>t<bestsize + 1. a ! (besti + t) = b ! (bestj + t)"
      using True "1.prems"(4) by (auto simp: less_Suc_eq)
    from "1.hyps"[OF True r _ _ m] True show ?thesis by auto
  next
    case False
    then show ?thesis using "1.prems" by auto
  qed
qed

lemma find_longest_match_block:
  assumes "alo \<le> ahi" "blo \<le> bhi"
    and eq: "find_longest_match a b alo ahi blo bhi = (i, j, k)"
  shows "alo \<le> i \<and> i + k \<le> ahi \<and> blo \<le> j \<and> j + k \<le> bhi
     \<and> (\<forall>t<k. a ! (i + t) = b ! (j + t))"
proof -
  obtain i0 j0 k0 where s0:
    "outer_loop a (chain_b b) blo bhi [alo..<ahi] (Map.empty, (alo, blo, 0)) = (i0, j0, k0)"
    by (metis prod_cases3)
  obtain i1 j1 k1 where s1:
    "extend_left (\<lambda>x. x \<notin> bjunk) a b alo blo (i0, j0, k0) = (i1, j1, k1)"
    by (metis prod_cases3)
  obtain i2 j2 k2 where s2:
    "extend_right (\<lambda>x. x \<notin> bjunk) a b ahi bhi (i1, j1, k1) = (i2, j2, k2)"
    by (metis prod_cases3)
  obtain i3 j3 k3 where s3:
    "extend_left (\<lambda>x. x \<in> bjunk) a b alo blo (i2, j2, k2) = (i3, j3, k3)"
    by (metis prod_cases3)
  have s4: "extend_right (\<lambda>x. x \<in> bjunk) a b ahi bhi (i3, j3, k3) = (i, j, k)"
    using eq s0 s1 s2 s3 by (simp add: find_longest_match_def)
  have c: "\<forall>c js. chain_b b c = Some js \<longrightarrow> (\<forall>j\<in>set js. b ! j = c)"
    using chain_b_indices by blast
  have b0: "alo \<le> i0 \<and> i0 + k0 \<le> ahi \<and> blo \<le> j0 \<and> j0 + k0 \<le> bhi
     \<and> (\<forall>t<k0. a ! (i0 + t) = b ! (j0 + t))"
    by (rule outer_loop_block[where j2len = Map.empty and i = alo and alo = alo,
          OF _ _ assms(1) c _ s0]) (use assms in auto)
  have b1: "alo \<le> i1 \<and> i1 + k1 \<le> ahi \<and> blo \<le> j1 \<and> j1 + k1 \<le> bhi
     \<and> (\<forall>t<k1. a ! (i1 + t) = b ! (j1 + t))"
    using extend_left_block[OF s1] b0 by auto
  have b2: "alo \<le> i2 \<and> i2 + k2 \<le> ahi \<and> blo \<le> j2 \<and> j2 + k2 \<le> bhi
     \<and> (\<forall>t<k2. a ! (i2 + t) = b ! (j2 + t))"
    using extend_right_block[OF s2] b1 by auto
  have b3: "alo \<le> i3 \<and> i3 + k3 \<le> ahi \<and> blo \<le> j3 \<and> j3 + k3 \<le> bhi
     \<and> (\<forall>t<k3. a ! (i3 + t) = b ! (j3 + t))"
    using extend_left_block[OF s3] b2 by auto
  show ?thesis
    using extend_right_block[OF s4] b3 by auto
qed

subsection \<open>The total size of the matching blocks\<close>

lemma matching_blocks_from_unfold:
  "find_longest_match a b alo ahi blo bhi = (i, j, k) \<Longrightarrow>
   matching_blocks_from a b alo ahi blo bhi =
     (if k \<noteq> 0 then
        (i, j, k)
          # (if alo < i \<and> blo < j then matching_blocks_from a b alo i blo j else [])
          @ (if i + k < ahi \<and> j + k < bhi then matching_blocks_from a b (i + k) ahi (j + k) bhi
             else [])
      else [])"
  by (subst matching_blocks_from.simps) simp

lemma matching_blocks_from_total:
  "alo \<le> ahi \<Longrightarrow> blo \<le> bhi \<Longrightarrow>
   sum_list (map (\<lambda>(i, j, k). k) (matching_blocks_from a b alo ahi blo bhi)) \<le> ahi - alo
   \<and> sum_list (map (\<lambda>(i, j, k). k) (matching_blocks_from a b alo ahi blo bhi)) \<le> bhi - blo
   \<and> (sum_list (map (\<lambda>(i, j, k). k) (matching_blocks_from a b alo ahi blo bhi)) = ahi - alo
       \<and> ahi - alo = bhi - blo
       \<longrightarrow> (\<forall>t<ahi - alo. a ! (alo + t) = b ! (blo + t)))"
proof (induction a b alo ahi blo bhi rule: matching_blocks_from.induct)
  case (1 a b alo ahi blo bhi)
  obtain i j k where f: "find_longest_match a b alo ahi blo bhi = (i, j, k)"
    by (metis prod_cases3)
  note bl = find_longest_match_block[OF "1.prems" f]
  let ?sum = "\<lambda>xs. sum_list (map (\<lambda>(i, j, k). k) xs)"
  let ?L = "if alo < i \<and> blo < j then matching_blocks_from a b alo i blo j else []"
  let ?R = "if i + k < ahi \<and> j + k < bhi then matching_blocks_from a b (i + k) ahi (j + k) bhi
             else []"
  show ?case
  proof (cases "k = 0")
    case True
    then have "matching_blocks_from a b alo ahi blo bhi = []"
      using matching_blocks_from_unfold[OF f] by simp
    then show ?thesis using "1.prems" by auto
  next
    case False
    have u: "matching_blocks_from a b alo ahi blo bhi = (i, j, k) # ?L @ ?R"
      using matching_blocks_from_unfold[OF f] False by simp
    have s: "?sum (matching_blocks_from a b alo ahi blo bhi) = k + ?sum ?L + ?sum ?R"
      unfolding u by simp
    have L: "?sum ?L \<le> i - alo \<and> ?sum ?L \<le> j - blo
       \<and> (?sum ?L = i - alo \<and> i - alo = j - blo \<longrightarrow> (\<forall>t<i - alo. a ! (alo + t) = b ! (blo + t)))"
    proof (cases "alo < i \<and> blo < j")
      case True
      have "alo \<le> i" "blo \<le> j" using True by simp_all
      from "1.IH"(1)[OF f[symmetric] refl False True this] True show ?thesis by simp
    next
      case False
      then show ?thesis by auto
    qed
    have R: "?sum ?R \<le> ahi - (i + k) \<and> ?sum ?R \<le> bhi - (j + k)
       \<and> (?sum ?R = ahi - (i + k) \<and> ahi - (i + k) = bhi - (j + k)
            \<longrightarrow> (\<forall>t<ahi - (i + k). a ! (i + k + t) = b ! (j + k + t)))"
    proof (cases "i + k < ahi \<and> j + k < bhi")
      case True
      have "i + k \<le> ahi" "j + k \<le> bhi" using True by simp_all
      from "1.IH"(2)[OF f[symmetric] refl False True this] True show ?thesis by simp
    next
      case False
      then show ?thesis by auto
    qed
    have La: "?sum ?L \<le> i - alo" "?sum ?L \<le> j - blo" using L by blast+
    have Ra: "?sum ?R \<le> ahi - (i + k)" "?sum ?R \<le> bhi - (j + k)" using R by blast+
    have ba: "alo \<le> i" "i + k \<le> ahi" "blo \<le> j" "j + k \<le> bhi" using bl by blast+
    have le1: "?sum (matching_blocks_from a b alo ahi blo bhi) \<le> ahi - alo"
      using s La Ra ba by arith
    have le2: "?sum (matching_blocks_from a b alo ahi blo bhi) \<le> bhi - blo"
      using s La Ra ba by arith
    have eq: "\<forall>t<ahi - alo. a ! (alo + t) = b ! (blo + t)"
      if e: "?sum (matching_blocks_from a b alo ahi blo bhi) = ahi - alo" "ahi - alo = bhi - blo"
    proof -
      have l1: "?sum ?L = i - alo" using s La Ra ba e by arith
      have l2: "i - alo = j - blo" using s La Ra ba e by arith
      have r1: "?sum ?R = ahi - (i + k)" using s La Ra ba e by arith
      have r2: "ahi - (i + k) = bhi - (j + k)" using s La Ra ba e by arith
      from L l1 l2 have ml: "\<forall>t<i - alo. a ! (alo + t) = b ! (blo + t)" by blast
      from R r1 r2 have mr: "\<forall>t<ahi - (i + k). a ! (i + k + t) = b ! (j + k + t)" by blast
      from bl have mm: "\<forall>t<k. a ! (i + t) = b ! (j + t)" by blast
      show ?thesis
      proof (intro allI impI)
        fix t assume t: "t < ahi - alo"
        consider "t < i - alo" | "i - alo \<le> t" "t < i - alo + k" | "i - alo + k \<le> t"
          by arith
        then show "a ! (alo + t) = b ! (blo + t)"
        proof cases
          case 1
          with ml show ?thesis by blast
        next
          case 2
          then have "t - (i - alo) < k" by arith
          with mm have m': "a ! (i + (t - (i - alo))) = b ! (j + (t - (i - alo)))" by blast
          have e1: "i + (t - (i - alo)) = alo + t" using 2 ba by arith
          have e2: "j + (t - (i - alo)) = blo + t" using 2 ba l2 by arith
          from m' show ?thesis by (simp only: e1 e2)
        next
          case 3
          then have "t - (i - alo + k) < ahi - (i + k)" using t ba by arith
          with mr have m': "a ! (i + k + (t - (i - alo + k))) = b ! (j + k + (t - (i - alo + k)))"
            by blast
          have e1: "i + k + (t - (i - alo + k)) = alo + t" using 3 ba by arith
          have e2: "j + k + (t - (i - alo + k)) = blo + t" using 3 ba l2 by arith
          from m' show ?thesis by (simp only: e1 e2)
        qed
      qed
    qed
    from le1 le2 eq show ?thesis by blast
  qed
qed

lemma sum_insort_key:
  "sum_list (map f (insort_key g x xs)) = f x + sum_list (map f xs)"
  for f :: "'a \<Rightarrow> nat"
  by (induction xs) auto

lemma sum_sort_key: "sum_list (map f (sort_key g xs)) = sum_list (map f xs)"
  for f :: "'a \<Rightarrow> nat"
  by (induction xs) (auto simp: sum_insort_key)

lemma collapse_loop_total:
  "collapse_loop xs cur na = (cur', na') \<Longrightarrow>
   sum_list (map (\<lambda>(i, j, k). k) na') + snd (snd cur') =
     sum_list (map (\<lambda>(i, j, k). k) xs) + snd (snd cur) + sum_list (map (\<lambda>(i, j, k). k) na)"
proof (induction xs cur na rule: collapse_loop.induct)
  case (1 cur non_adjacent)
  then show ?case by auto
next
  case (2 i2 j2 k2 rest i1 j1 k1 non_adjacent)
  show ?case
  proof (cases "i1 + k1 = i2 \<and> j1 + k1 = j2")
    case True
    with 2 show ?thesis by auto
  next
    case False
    with 2 show ?thesis by (auto split: if_splits)
  qed
qed

lemma get_matching_blocks_total:
  "sum_list (map (\<lambda>(i, j, k). k) (get_matching_blocks a b)) =
   sum_list (map (\<lambda>(i, j, k). k) (matching_blocks_from a b 0 (length a) 0 (length b)))"
proof -
  let ?mb = "sort (matching_blocks_from a b 0 (length a) 0 (length b))"
  obtain cur na where c0: "collapse_loop ?mb (0, 0, 0) [] = (cur, na)"
    by fastforce
  obtain i1 j1 k1 where "cur = (i1, j1, k1)" by (cases cur) auto
  with c0 have c: "collapse_loop ?mb (0, 0, 0) [] = ((i1, j1, k1), na)" by simp
  from collapse_loop_total[OF c]
  have "sum_list (map (\<lambda>(i, j, k). k) na) + k1 = sum_list (map (\<lambda>(i, j, k). k) ?mb)" by simp
  then show ?thesis
    using c by (simp add: get_matching_blocks_def Let_def sum_sort_key)
qed

lemma ratio_eq:
  "ratio a b = calculate_ratio
     (sum_list (map (\<lambda>(i, j, k). k) (matching_blocks_from a b 0 (length a) 0 (length b))))
     (length a + length b)"
  by (simp add: ratio_def get_matching_blocks_total)

lemma ratio_one_imp_eq: "ratio a b = 1 \<Longrightarrow> a = b"
proof -
  assume r: "ratio a b = 1"
  let ?M = "sum_list (map (\<lambda>(i, j, k). k) (matching_blocks_from a b 0 (length a) 0 (length b)))"
  note tot = matching_blocks_from_total[of 0 "length a" 0 "length b" a b]
  show "a = b"
  proof (cases "length a + length b = 0")
    case True
    then show ?thesis by simp
  next
    case False
    with r have "2 * (of_nat ?M :: rat) = of_nat (length a + length b)"
      by (simp add: ratio_eq calculate_ratio_def)
    then have "(of_nat (2 * ?M) :: rat) = of_nat (length a + length b)" by simp
    then have e: "2 * ?M = length a + length b" by (simp only: of_nat_eq_iff)
    with tot have m: "?M = length a" "length a = length b" by auto
    with tot have "\<forall>t<length a. a ! t = b ! t" by simp
    with m show ?thesis by (simp add: nth_equalityI)
  qed
qed

subsection \<open>A string against itself\<close>

lemma j2lenget_le:
  assumes "\<forall>j v. j2len j = Some v \<longrightarrow> v \<le> run_len s (Suc j) \<and> v \<le> run_len s i"
  shows "j2lenget j2len j \<le> run_len s j \<and> j2lenget j2len j \<le> run_len s i"
proof (cases "j2lenget j2len j = 0")
  case True
  then show ?thesis by simp
next
  case False
  with j2lenget_cases[of j2len j] have j: "0 < j" and h: "j2len (j - 1) = Some (j2lenget j2len j)"
    by blast+
  from assms h have "j2lenget j2len j \<le> run_len s (Suc (j - 1)) \<and> j2lenget j2len j \<le> run_len s i"
    by blast
  with j show ?thesis by simp
qed

lemma inner_loop_diagonal:
  assumes sorted: "sorted_wrt (<) js"
    and js: "\<forall>j\<in>set js. j < length s \<and> s ! j = s ! i"
    and i: "i < length s"
    and np: "chain_b s (s ! i) \<noteq> None"
    and J1: "\<forall>j v. j2len j = Some v \<longrightarrow> v \<le> run_len s (Suc j) \<and> v \<le> run_len s i"
    and J2: "j2lenget j2len i = run_len s i"
    and B1: "\<forall>m\<le>i. run_len s m \<le> bs"
    and B2: "bi = bj"
    and B3: "i \<in> set js \<or> run_len s (Suc i) \<le> bs"
    and res: "inner_loop j2len 0 (length s) i js (new, bi, bj, bs) = (new', bi', bj', bs')"
  shows "bi' = bj' \<and> bs \<le> bs' \<and> run_len s (Suc i) \<le> bs'
     \<and> (\<forall>j. new' j = (if j \<in> set js then Some (j2lenget j2len j + 1) else new j))"
  using sorted js B1 B2 B3 res
proof (induction js arbitrary: new bi bj bs)
  case Nil
  then show ?case by simp
next
  case (Cons j js)
  let ?k = "j2lenget j2len j + 1"
  have jn: "j < length s" and sj: "s ! j = s ! i" using Cons.prems(2) by simp_all
  have so: "sorted_wrt (<) js" and gt: "\<forall>x\<in>set js. j < x" using Cons.prems(1) by simp_all
  have js': "\<forall>j\<in>set js. j < length s \<and> s ! j = s ! i" using Cons.prems(2) by simp
  have rj: "run_len s (Suc j) = run_len s j + 1" using run_len_Suc[OF jn] sj np by simp
  have ri: "run_len s (Suc i) = run_len s i + 1" using run_len_Suc[OF i] np by simp
  note g = j2lenget_le[OF J1, of j]
  have upd: "\<forall>x. new' x = (if x \<in> set (j # js) then Some (j2lenget j2len x + 1) else new x)"
    if "\<forall>x. new' x = (if x \<in> set js then Some (j2lenget j2len x + 1) else (new(j \<mapsto> ?k)) x)"
    using that by simp
  consider (lt) "j < i" | (eq) "j = i" | (gt) "i < j" by arith
  then show ?case
  proof cases
    case lt
    then have "Suc j \<le> i" by simp
    with Cons.prems(3) have "run_len s (Suc j) \<le> bs" by blast
    with g rj have nk: "\<not> ?k > bs" by arith
    with Cons.prems(6) jn
    have r: "inner_loop j2len 0 (length s) i js (new(j \<mapsto> ?k), bi, bj, bs) = (new', bi', bj', bs')"
      by (simp add: Let_def)
    have b3: "i \<in> set js \<or> run_len s (Suc i) \<le> bs" using Cons.prems(5) lt by auto
    note ih = Cons.IH[OF so js' Cons.prems(3,4) b3 r]
    from ih have 4: "\<forall>x. new' x = (if x \<in> set js then Some (j2lenget j2len x + 1) else (new(j \<mapsto> ?k)) x)"
      by blast
    from ih upd[OF 4] show ?thesis by blast
  next
    case eq
    have k: "?k = run_len s (Suc i)" using eq J2 ri by simp
    show ?thesis
    proof (cases "?k > bs")
      case True
      with Cons.prems(6) jn eq
      have r: "inner_loop j2len 0 (length s) i js (new(j \<mapsto> ?k), i + 1 - ?k, i + 1 - ?k, ?k)
          = (new', bi', bj', bs')"
        by (simp add: Let_def)
      have b1: "\<forall>m\<le>i. run_len s m \<le> ?k"
      proof (intro allI impI)
        fix m assume "m \<le> i"
        with Cons.prems(3) have "run_len s m \<le> bs" by blast
        with True show "run_len s m \<le> ?k" by arith
      qed
      have b3: "i \<in> set js \<or> run_len s (Suc i) \<le> ?k" using k by simp
      note ih = Cons.IH[OF so js' b1 refl b3 r]
      from ih have 1: "bi' = bj'" and 2: "?k \<le> bs'" and 3: "run_len s (Suc i) \<le> bs'"
        and 4: "\<forall>x. new' x = (if x \<in> set js then Some (j2lenget j2len x + 1) else (new(j \<mapsto> ?k)) x)"
        by blast+
      from 2 True have "bs \<le> bs'" by arith
      with 1 3 upd[OF 4] show ?thesis by blast
    next
      case False
      with Cons.prems(6) jn
      have r: "inner_loop j2len 0 (length s) i js (new(j \<mapsto> ?k), bi, bj, bs) = (new', bi', bj', bs')"
        by (simp add: Let_def)
      have b3: "i \<in> set js \<or> run_len s (Suc i) \<le> bs" using False k by simp
      note ih = Cons.IH[OF so js' Cons.prems(3,4) b3 r]
      from ih have 4: "\<forall>x. new' x = (if x \<in> set js then Some (j2lenget j2len x + 1) else (new(j \<mapsto> ?k)) x)"
        by blast
      from ih upd[OF 4] show ?thesis by blast
    qed
  next
    case gt
    with \<open>\<forall>x\<in>set js. j < x\<close> have "i \<notin> set (j # js)" by auto
    with Cons.prems(5) have b3: "run_len s (Suc i) \<le> bs" by blast
    with g ri have nk: "\<not> ?k > bs" by arith
    with Cons.prems(6) jn
    have r: "inner_loop j2len 0 (length s) i js (new(j \<mapsto> ?k), bi, bj, bs) = (new', bi', bj', bs')"
      by (simp add: Let_def)
    have b3': "i \<in> set js \<or> run_len s (Suc i) \<le> bs" using b3 by simp
    note ih = Cons.IH[OF so js' Cons.prems(3,4) b3' r]
    from ih have 4: "\<forall>x. new' x = (if x \<in> set js then Some (j2lenget j2len x + 1) else (new(j \<mapsto> ?k)) x)"
      by blast
    from ih upd[OF 4] show ?thesis by blast
  qed
qed

lemma outer_loop_diagonal:
  assumes J1: "\<forall>j v. j2len j = Some v \<longrightarrow> v \<le> run_len s (Suc j) \<and> v \<le> run_len s i"
    and J2: "j2lenget j2len i = run_len s i"
    and B1: "\<forall>m\<le>i. run_len s m \<le> bs"
    and B2: "bi = bj"
    and i: "i \<le> length s"
    and res: "outer_loop s (chain_b s) 0 (length s) [i..<length s] (j2len, bi, bj, bs)
        = (bi', bj', bs')"
  shows "bi' = bj'"
  using J1 J2 B1 B2 i res
proof (induction "length s - i" arbitrary: i j2len bi bj bs)
  case 0
  then show ?case by simp
next
  case (Suc n)
  then have lt: "i < length s" by simp
  have n: "n = length s - Suc i" using Suc.hyps(2) by simp
  show ?case
  proof (cases "chain_b s (s ! i)")
    case None
    with Suc.prems(6) lt
    have r: "outer_loop s (chain_b s) 0 (length s) [Suc i..<length s] (Map.empty, bi, bj, bs)
        = (bi', bj', bs')"
      by (simp add: upt_conv_Cons)
    have z: "run_len s (Suc i) = 0" using run_len_Suc[OF lt] None by simp
    have b1: "\<forall>m\<le>Suc i. run_len s m \<le> bs" using Suc.prems(3) z by (auto simp: le_Suc_eq)
    show ?thesis
      by (rule Suc.hyps(1)[OF n _ _ b1 Suc.prems(4) _ r]) (use lt z in \<open>auto simp: j2lenget_def\<close>)
  next
    case (Some js)
    from chain_b_Some[OF Some] have jse: "js = [j \<leftarrow> [0..<length s]. s ! j = s ! i]" by simp
    have sorted: "sorted_wrt (<) js" unfolding jse by (simp add: sorted_wrt_filter)
    have jsp: "\<forall>j\<in>set js. j < length s \<and> s ! j = s ! i" unfolding jse by simp
    have ij: "i \<in> set js" unfolding jse using lt by simp
    have np: "chain_b s (s ! i) \<noteq> None" using Some by simp
    obtain new ci cj cs where st:
      "inner_loop j2len 0 (length s) i js (Map.empty, bi, bj, bs) = (new, ci, cj, cs)"
      by (metis prod_cases4)
    from inner_loop_diagonal[OF sorted jsp lt np Suc.prems(1,2,3,4) _ st] ij
    have d: "ci = cj" "bs \<le> cs" "run_len s (Suc i) \<le> cs"
        "\<forall>j. new j = (if j \<in> set js then Some (j2lenget j2len j + 1) else None)"
      by auto
    have r: "outer_loop s (chain_b s) 0 (length s) [Suc i..<length s] (new, ci, cj, cs)
        = (bi', bj', bs')"
      using Suc.prems(6) lt Some st by (simp add: upt_conv_Cons)
    have ri: "run_len s (Suc i) = run_len s i + 1" using run_len_Suc[OF lt] np by simp
    have j1: "\<forall>j v. new j = Some v \<longrightarrow> v \<le> run_len s (Suc j) \<and> v \<le> run_len s (Suc i)"
    proof (intro allI impI)
      fix j v assume nv: "new j = Some v"
      with d(4) have jin: "j \<in> set js" and v: "v = j2lenget j2len j + 1"
        by (auto split: if_splits)
      from jin jsp have jn: "j < length s" and sj: "s ! j = s ! i" by auto
      have rj: "run_len s (Suc j) = run_len s j + 1" using run_len_Suc[OF jn] sj np by simp
      from j2lenget_le[OF Suc.prems(1), of j] v rj ri
      show "v \<le> run_len s (Suc j) \<and> v \<le> run_len s (Suc i)" by arith
    qed
    have j2: "j2lenget new (Suc i) = run_len s (Suc i)"
      using d(4) ij Suc.prems(2) ri by (simp add: j2lenget_def[of new])
    have b1: "\<forall>m\<le>Suc i. run_len s m \<le> cs"
    proof (intro allI impI)
      fix m assume m: "m \<le> Suc i"
      show "run_len s m \<le> cs"
      proof (cases "m = Suc i")
        case True
        with d(3) show ?thesis by simp
      next
        case False
        with m have "m \<le> i" by simp
        with Suc.prems(3) have "run_len s m \<le> bs" by blast
        with d(2) show ?thesis by simp
      qed
    qed
    show ?thesis
      by (rule Suc.hyps(1)[OF n j1 j2 b1 d(1) _ r]) (use lt in simp)
  qed
qed

lemma extend_left_unfold:
  "extend_left P a b alo blo (besti, bestj, bestsize) =
     (if besti > alo \<and> bestj > blo \<and> P (b ! (bestj - 1)) \<and> a ! (besti - 1) = b ! (bestj - 1)
      then extend_left P a b alo blo (besti - 1, bestj - 1, bestsize + 1)
      else (besti, bestj, bestsize))"
  by (rule extend_left.simps)

lemma extend_right_unfold:
  "extend_right P a b ahi bhi (besti, bestj, bestsize) =
     (if besti + bestsize < ahi \<and> bestj + bestsize < bhi \<and> P (b ! (bestj + bestsize))
         \<and> a ! (besti + bestsize) = b ! (bestj + bestsize)
      then extend_right P a b ahi bhi (besti, bestj, bestsize + 1)
      else (besti, bestj, bestsize))"
  by (rule extend_right.simps)

lemma extend_left_diagonal:
  "\<forall>x. P x \<Longrightarrow> extend_left P s s 0 0 (d, d, k) = (0, 0, k + d)"
proof (induction d arbitrary: k)
  case 0
  show ?case
    by (subst extend_left_unfold) (simp del: extend_left.simps)
next
  case (Suc d)
  have "extend_left P s s 0 0 (Suc d, Suc d, k) = extend_left P s s 0 0 (d, d, k + 1)"
    using Suc.prems by (subst extend_left_unfold) (simp del: extend_left.simps)
  also have "\<dots> = (0, 0, k + 1 + d)" by (rule Suc.IH[OF Suc.prems])
  finally show ?case by simp
qed

lemma extend_right_diagonal:
  "\<forall>x. P x \<Longrightarrow> k \<le> n \<Longrightarrow> extend_right P s s n n (0, 0, k) = (0, 0, n)"
proof (induction "n - k" arbitrary: k)
  case 0
  then have "k = n" by simp
  then show ?case
    by (subst extend_right_unfold) (simp del: extend_right.simps)
next
  case (Suc m)
  then have lt: "k < n" by simp
  have "extend_right P s s n n (0, 0, k) = extend_right P s s n n (0, 0, k + 1)"
    using Suc.prems(1) lt by (subst extend_right_unfold) (simp del: extend_right.simps)
  also have "\<dots> = (0, 0, n)"
    by (rule Suc.hyps(1)[OF _ Suc.prems(1)]) (use Suc.hyps(2) lt in simp_all)
  finally show ?case .
qed

lemma extend_left_junk: "extend_left (\<lambda>x. x \<in> bjunk) a b alo blo best = best"
proof (cases best)
  case (fields besti bestj bestsize)
  show ?thesis
    unfolding fields by (subst extend_left_unfold) (simp add: bjunk_def del: extend_left.simps)
qed

lemma extend_right_junk: "extend_right (\<lambda>x. x \<in> bjunk) a b ahi bhi best = best"
proof (cases best)
  case (fields besti bestj bestsize)
  show ?thesis
    unfolding fields by (subst extend_right_unfold) (simp add: bjunk_def del: extend_right.simps)
qed

lemma find_longest_match_self:
  "find_longest_match s s 0 (length s) 0 (length s) = (0, 0, length s)"
proof -
  obtain d e k where o:
    "outer_loop s (chain_b s) 0 (length s) [0..<length s] (Map.empty, (0, 0, 0)) = (d, e, k)"
    by (metis prod_cases3)
  have de: "d = e"
    by (rule outer_loop_diagonal[where j2len = Map.empty and i = 0 and bs = 0 and bi = 0,
          OF _ _ _ _ _ o]) (simp_all add: j2lenget_def run_len_0)
  have c: "\<forall>c js. chain_b s c = Some js \<longrightarrow> (\<forall>j\<in>set js. s ! j = c)"
    using chain_b_indices by blast
  have "d + k \<le> length s"
    using outer_loop_block[where j2len = Map.empty and i = 0 and alo = 0 and bi = 0 and bs = 0
        and b = s, OF _ _ _ c _ o]
    by simp
  then have k: "k + d \<le> length s" by simp
  have p: "\<forall>x. x \<notin> bjunk" by (simp add: bjunk_def)
  show ?thesis
    unfolding find_longest_match_def Let_def o de[symmetric]
    by (simp only: extend_left_diagonal[of "\<lambda>x. x \<notin> bjunk", OF p]
        extend_right_diagonal[of "\<lambda>x. x \<notin> bjunk", OF p k] extend_left_junk extend_right_junk)
qed

lemma ratio_self: "ratio s s = 1"
proof (cases "s = []")
  case True
  then show ?thesis by (simp add: ratio_eq calculate_ratio_def)
next
  case False
  have "matching_blocks_from s s 0 (length s) 0 (length s) = [(0, 0, length s)]"
    using matching_blocks_from_unfold[OF find_longest_match_self[of s]] False by simp
  then show ?thesis using False by (simp add: ratio_eq calculate_ratio_def)
qed

subsection \<open>Strings without a common character\<close>

lemma find_longest_match_disjoint:
  assumes "set a \<inter> set b = {}"
  shows "find_longest_match a b 0 (length a) 0 (length b) = (0, 0, 0)"
proof -
  have o: "outer_loop a (chain_b b) 0 (length b) is (j2len, best) = best"
    if "set is \<subseteq> {0..<length a}" for "is" j2len best
    using that
  proof (induction "is" arbitrary: j2len)
    case Nil
    then show ?case by simp
  next
    case (Cons i "is")
    then have "a ! i \<in> set a" by simp
    with assms have "a ! i \<notin> set b" by blast
    then have "chain_b b (a ! i) = None" by (rule chain_b_absent)
    with Cons show ?case by simp
  qed
  have o': "outer_loop a (chain_b b) 0 (length b) [0..<length a] (Map.empty, (0, 0, 0)) = (0, 0, 0)"
    by (rule o) simp
  have l: "extend_left P a b 0 0 (0, 0, 0) = (0, 0, 0)" for P
    by (subst extend_left_unfold) (simp del: extend_left.simps)
  have r: "extend_right P a b (length a) (length b) (0, 0, 0) = (0, 0, 0)" for P
  proof (cases "0 < length a \<and> 0 < length b")
    case True
    then have "a ! 0 \<in> set a" "b ! 0 \<in> set b" by simp_all
    with assms have "a ! 0 \<noteq> b ! 0" by auto
    then show ?thesis
      by (subst extend_right_unfold) (simp del: extend_right.simps)
  next
    case False
    then show ?thesis
      by (subst extend_right_unfold) (auto simp del: extend_right.simps)
  qed
  show ?thesis
    by (simp only: find_longest_match_def Let_def o' l r)
qed

lemma ratio_disjoint:
  "set a \<inter> set b = {} \<Longrightarrow> ratio a b = (if a = [] \<and> b = [] then 1 else 0)"
proof -
  assume d: "set a \<inter> set b = {}"
  have "matching_blocks_from a b 0 (length a) 0 (length b) = []"
    using matching_blocks_from_unfold[OF find_longest_match_disjoint[OF d]] by simp
  then show ?thesis by (simp add: ratio_eq calculate_ratio_def)
qed

subsection \<open>The claims on the similarity ratio\<close>

text \<open>
  Claim C3. The similarity of a string with itself is exactly 1, and a similarity of 1 is
  attained only by two identical strings. This holds for all strings, normalized or not. (In
  floating point \<open>2.0 * n / (2 * n)\<close> is exactly \<open>1.0\<close>, and a quotient below 1 rounds to
  \<open>1.0\<close> only for strings of more than \<open>2^52\<close> characters.)
\<close>

theorem similarity_one_iff_identical:
  "ratio s s = 1 \<and> (ratio a b = 1 \<longrightarrow> a = b)"
proof
  show "ratio s s = 1" by (rule ratio_self)
next
  show "ratio a b = 1 \<longrightarrow> a = b"
  proof
    assume "ratio a b = 1"
    then show "a = b" by (rule ratio_one_imp_eq)
  qed
qed

theorem similarity_one_iff_identical_witness:
  "ratio ''ab'' ''ab'' = 1 \<and> ratio ''abc'' ''ab'' \<noteq> 1"
proof -
  have 1: "ratio ''ab'' ''ab'' = 1"
    using similarity_one_iff_identical[of "''ab''" "''ab''" "''ab''"] by blast
  have "ratio ''abc'' ''ab'' = 1 \<longrightarrow> ''abc'' = ''ab''"
    using similarity_one_iff_identical[of "''ab''" "''abc''" "''ab''"] by blast
  then have 2: "ratio ''abc'' ''ab'' \<noteq> 1" by auto
  from 1 2 show ?thesis by blast
qed

text \<open>
  Claim C1, as the code has it. The ratio of \<open>a\<close> and \<open>b\<close> and the ratio of \<open>b\<close> and \<open>a\<close>
  divide by the same length, and the matching blocks found depend on the order of the
  arguments. The two are equal when the strings share no character, and one is 1 exactly when
  the other is.
\<close>

theorem similarity_symmetric_cases:
  "(set a \<inter> set b = {} \<longrightarrow> ratio a b = ratio b a) \<and> (ratio a b = 1 \<longleftrightarrow> ratio b a = 1)"
proof
  show "set a \<inter> set b = {} \<longrightarrow> ratio a b = ratio b a"
  proof
    assume d: "set a \<inter> set b = {}"
    then have d': "set b \<inter> set a = {}" by blast
    show "ratio a b = ratio b a"
      unfolding ratio_disjoint[OF d] ratio_disjoint[OF d'] by auto
  qed
next
  show "ratio a b = 1 \<longleftrightarrow> ratio b a = 1"
  proof
    assume "ratio a b = 1"
    then have "a = b" by (rule ratio_one_imp_eq)
    then show "ratio b a = 1" by (simp add: ratio_self)
  next
    assume "ratio b a = 1"
    then have "b = a" by (rule ratio_one_imp_eq)
    then show "ratio a b = 1" by (simp add: ratio_self)
  qed
qed

theorem similarity_symmetric_cases_witness:
  "set ''ab'' \<inter> set ''cd'' = {} \<and> ratio ''ab'' ''cd'' = ratio ''cd'' ''ab''"
proof -
  have d: "set ''ab'' \<inter> set ''cd'' = {}" by simp
  with similarity_symmetric_cases[of "''ab''" "''cd''"] show ?thesis by blast
qed

text \<open>
  Claim C1 as stated fails: \<open>tide\<close> and \<open>diet\<close> are normalized titles, and their ratio is
  \<open>1/4\<close> in one order and \<open>1/2\<close> in the other.
\<close>

theorem similarity_not_symmetric:
  "normalize_title (Some ''tide'') = ''tide'' \<and> normalize_title (Some ''diet'') = ''diet''
   \<and> ratio ''tide'' ''diet'' = 1 / 4 \<and> ratio ''diet'' ''tide'' = 1 / 2"
proof -
  have 1: "normalize_title (Some ''tide'') = ''tide''" by code_simp
  have 2: "normalize_title (Some ''diet'') = ''diet''" by code_simp
  have 3: "ratio ''tide'' ''diet'' = 1 / 4" by code_simp
  have 4: "ratio ''diet'' ''tide'' = 1 / 2" by code_simp
  from 1 2 3 4 show ?thesis by blast
qed

end
